theory Spec2Isabelle
  imports Main "HOL-Library.Word"
begin

section \<open>Content identifiers, block headers, tip-sets\<close>

text \<open>
  A \<^verbatim>\<open>cid.Cid\<close> is read by the snapshot code only through its prefix
  (\<^verbatim>\<open>c.Prefix().Codec\<close>, \<^verbatim>\<open>c.Prefix().MhType\<close>) and through equality (as a key
  of \<^verbatim>\<open>cid.Set\<close>). The digest stands for the remaining bytes of the identifier.
\<close>

datatype cid = Cid (Codec: nat) (MhType: nat) (Digest: nat)

text \<open>The multicodec numbers of go-cid and go-multihash that the code compares with.\<close>

definition Raw :: nat where
  "Raw = 0x55"

definition DagCBOR :: nat where
  "DagCBOR = 0x71"

definition IDENTITY :: nat where
  "IDENTITY = 0x00"

text \<open>\<^verbatim>\<open>abi.ChainEpoch\<close> is an \<^verbatim>\<open>int64\<close>: subtraction wraps, comparison is signed.\<close>

type_synonym ChainEpoch = "64 word"

text \<open>The fields of \<^verbatim>\<open>types.BlockHeader\<close> that the walk reads.\<close>

record BlockHeader =
  Height :: ChainEpoch
  Parents :: "cid list"
  Messages :: cid
  ParentStateRoot :: cid
  ParentMessageReceipts :: cid

text \<open>\<^verbatim>\<open>types.TipSet\<close>, as far as \<^verbatim>\<open>ts.Cids()\<close> and \<^verbatim>\<open>ts.Height()\<close> show it.\<close>

record TipSet =
  Cids :: "cid list"
  TsHeight :: ChainEpoch

section \<open>Errors\<close>

text \<open>
  Every error return of the source is a value. \<open>OutOfFuel\<close> is no error of the program:
  it is the answer of a model function whose recursion budget ran out before the program
  would have returned.
\<close>

datatype error =
    GetFailed cid
  | UnmarshalFailed cid
  | ScanFailed cid
  | WriteFailed nat
  | ReadFailed
  | LoadTipSetFailed
  | OutOfFuel

section \<open>The chain store\<close>

text \<open>
  A blockstore is read through \<^verbatim>\<open>Get\<close> only while walking. The \<^verbatim>\<open>ChainStore\<close> holds
  references to two blockstore objects, which may be one and the same object (the
  comment in \<^verbatim>\<open>Import\<close>: both are backed by the universal store); \<open>blockstores\<close> maps
  a reference to the contents of the object it names.
\<close>

type_synonym 'b blockstore = "cid \<Rightarrow> 'b option"

record 'b ChainStore =
  blockstores :: "nat \<Rightarrow> 'b blockstore"
  chainBlockstore :: nat
  stateBlockstore :: nat
  heaviestTipSet :: TipSet

definition chainGet :: "'b ChainStore \<Rightarrow> 'b blockstore" where
  "chainGet cs = blockstores cs (chainBlockstore cs)"

definition stateGet :: "'b ChainStore \<Rightarrow> 'b blockstore" where
  "stateGet cs = blockstores cs (stateBlockstore cs)"

text \<open>
  The decoders are library code outside the repository's snapshot file:
  \<open>unmarshalCBOR\<close> is \<^verbatim>\<open>BlockHeader.UnmarshalCBOR\<close> (\<open>None\<close> when it returns an error);
  \<open>scanForLinks\<close> is \<^verbatim>\<open>cbg.ScanForLinks\<close>: the identifiers it hands to its callback,
  in order, and whether it returned an error after them.
\<close>

record 'b cbor =
  unmarshalCBOR :: "'b \<Rightarrow> BlockHeader option"
  scanForLinks :: "'b \<Rightarrow> cid list \<times> bool"

section \<open>recurseLinks\<close>

text \<open>
  \<^verbatim>\<open>recurseLinks(ctx, bs, walked, root, in)\<close>, lines 236-270. The set \<open>walked\<close> is a pointer
  in the source, so the model returns it, also beside an error. \<open>scanCallback\<close> is the
  closure passed to \<^verbatim>\<open>ScanForLinks\<close>, run over the links in order; its state is
  \<^verbatim>\<open>(walked, in, rerr)\<close>. The first argument bounds the depth of the recursion.
\<close>

fun recurseLinks ::
    "nat \<Rightarrow> 'b blockstore \<Rightarrow> 'b cbor \<Rightarrow> cid set \<Rightarrow> cid \<Rightarrow> cid list \<Rightarrow> cid set \<times> (error + cid list)"
  and scanCallback ::
    "nat \<Rightarrow> 'b blockstore \<Rightarrow> 'b cbor \<Rightarrow> cid list \<Rightarrow> cid set \<times> cid list \<times> error option
       \<Rightarrow> cid set \<times> cid list \<times> error option"
where
  "recurseLinks 0 bs lib walked root inp = (walked, Inl OutOfFuel)"
| "recurseLinks (Suc n) bs lib walked root inp =
     (if Codec root \<noteq> DagCBOR then (walked, Inr inp)
      else case bs root of
        None \<Rightarrow> (walked, Inl (GetFailed root))
      | Some data \<Rightarrow>
          (case scanCallback n bs lib (fst (scanForLinks lib data)) (walked, inp, None) of
            (walked', inp', rerr) \<Rightarrow>
              if snd (scanForLinks lib data) then (walked', Inl (ScanFailed root))
              else (case rerr of None \<Rightarrow> (walked', Inr inp') | Some e \<Rightarrow> (walked', Inl e))))"
| "scanCallback n bs lib [] st = st"
| "scanCallback n bs lib (c # cs) (walked, inp, rerr) =
     (if rerr \<noteq> None then scanCallback n bs lib cs (walked, inp, rerr)
      else if c \<in> walked then scanCallback n bs lib cs (walked, inp, rerr)
      else case recurseLinks n bs lib (insert c walked) c (inp @ [c]) of
          (walked', Inr inp') \<Rightarrow> scanCallback n bs lib cs (walked', inp', None)
        | (walked', Inl e) \<Rightarrow> scanCallback n bs lib cs (walked', [], Some e))"

section \<open>WalkSnapshot\<close>

text \<open>
  The variables that the closure \<^verbatim>\<open>walkChain\<close> and the loop of \<^verbatim>\<open>WalkSnapshot\<close> share
  (lines 124-128), and the state of the callback \<^verbatim>\<open>cb\<close>, which is a closure of the caller
  (in \<^verbatim>\<open>Export\<close> it writes to the output stream).
\<close>

record 'w walkState =
  seen :: "cid set"
  walked :: "cid set"
  blocksToWalk :: "cid list"
  currentMinHeight :: ChainEpoch
  cbState :: 'w

type_synonym 'w callback = "cid \<Rightarrow> 'w \<Rightarrow> 'w \<times> error option"

text \<open>
  Lines 156-165: the message DAG of header \<open>b\<close>. \<^verbatim>\<open>walked.Visit(c)\<close> answers whether \<open>c\<close> was
  absent and inserts it. The result is the new \<open>walked\<close> and \<^verbatim>\<open>cids\<close> (or the error
  returned).
\<close>

definition walkMessages ::
    "nat \<Rightarrow> 'b ChainStore \<Rightarrow> 'b cbor \<Rightarrow> TipSet \<Rightarrow> ChainEpoch \<Rightarrow> bool \<Rightarrow> BlockHeader \<Rightarrow> cid set
       \<Rightarrow> cid set \<times> (error + cid list)" where
  "walkMessages fuel cs lib ts inclRecentRoots skipOldMsgs b wlk =
     (if \<not> skipOldMsgs \<or> TsHeight ts - inclRecentRoots <s Height b then
        (if Messages b \<notin> wlk then
           recurseLinks fuel (chainGet cs) lib (insert (Messages b) wlk) (Messages b) [Messages b]
         else (wlk, Inr []))
      else (wlk, Inr []))"

text \<open>Lines 167-174: the parents go to the frontier, or for genesis to \<^verbatim>\<open>cids\<close>.\<close>

definition walkParents :: "BlockHeader \<Rightarrow> cid list \<times> cid list \<Rightarrow> cid list \<times> cid list" where
  "walkParents b = (\<lambda>(toWalk, cids).
     if 0 <s Height b then (toWalk @ Parents b, cids) else (toWalk, cids @ Parents b))"

text \<open>
  Lines 176-191: \<^verbatim>\<open>out\<close> starts as \<^verbatim>\<open>cids\<close>; the state root is expanded and the receipts
  root appended. The second conjunct of line 188 is evaluated only when receipts are not
  skipped.
\<close>

definition walkStateRoots ::
    "nat \<Rightarrow> 'b ChainStore \<Rightarrow> 'b cbor \<Rightarrow> TipSet \<Rightarrow> ChainEpoch \<Rightarrow> bool \<Rightarrow> BlockHeader \<Rightarrow> cid set
       \<Rightarrow> cid list \<Rightarrow> cid set \<times> (error + cid list)" where
  "walkStateRoots fuel cs lib ts inclRecentRoots skipMsgReceipts b wlk cids =
     (if Height b = 0 \<or> TsHeight ts - inclRecentRoots <s Height b then
        (case (if ParentStateRoot b \<notin> wlk then
                 (case recurseLinks fuel (stateGet cs) lib (insert (ParentStateRoot b) wlk)
                         (ParentStateRoot b) [ParentStateRoot b] of
                    (wlk', Inr scids) \<Rightarrow> (wlk', Inr (cids @ scids))
                  | (wlk', Inl e) \<Rightarrow> (wlk', Inl e))
               else (wlk, Inr cids)) of
           (wlk', Inl e) \<Rightarrow> (wlk', Inl e)
         | (wlk', Inr out) \<Rightarrow>
             if \<not> skipMsgReceipts \<and> ParentMessageReceipts b \<notin> wlk'
             then (insert (ParentMessageReceipts b) wlk', Inr (out @ [ParentMessageReceipts b]))
             else (wlk', Inr out))
      else (wlk, Inr cids))"

text \<open>Lines 193-215: the loop over \<^verbatim>\<open>out\<close>, with the filter on the prefix.\<close>

fun emitOut :: "'w callback \<Rightarrow> cid list \<Rightarrow> cid set \<times> 'w \<Rightarrow> (cid set \<times> 'w) \<times> error option" where
  "emitOut cb [] sw = (sw, None)"
| "emitOut cb (c # out) (sn, w) =
     (if c \<in> sn then emitOut cb out (sn, w)
      else if MhType c = IDENTITY then emitOut cb out (insert c sn, w)
      else if Codec c \<noteq> Raw \<and> Codec c \<noteq> DagCBOR then emitOut cb out (insert c sn, w)
      else case cb c w of
          (w', Some e) \<Rightarrow> ((insert c sn, w'), Some e)
        | (w', None) \<Rightarrow> emitOut cb out (insert c sn, w'))"

text \<open>
  The closure \<^verbatim>\<open>walkChain\<close>, lines 130-218. The log line of 151-153 has no effect on the
  state. What the closure changed before an error return stays changed.
\<close>

definition walkChain ::
    "nat \<Rightarrow> 'b ChainStore \<Rightarrow> 'b cbor \<Rightarrow> TipSet \<Rightarrow> ChainEpoch \<Rightarrow> bool \<Rightarrow> bool \<Rightarrow> 'w callback \<Rightarrow> cid
       \<Rightarrow> 'w walkState \<Rightarrow> 'w walkState \<times> error option" where
  "walkChain fuel cs lib ts inclRecentRoots skipOldMsgs skipMsgReceipts cb blk st =
     (if blk \<in> seen st then (st, None)
      else case cb blk (cbState st) of
        (w1, Some e) \<Rightarrow> (st\<lparr>seen := insert blk (seen st), cbState := w1\<rparr>, Some e)
      | (w1, None) \<Rightarrow>
         (let st1 = st\<lparr>seen := insert blk (seen st), cbState := w1\<rparr> in
          case chainGet cs blk of
            None \<Rightarrow> (st1, Some (GetFailed blk))
          | Some data \<Rightarrow>
             (case unmarshalCBOR lib data of
                None \<Rightarrow> (st1, Some (UnmarshalFailed blk))
              | Some b \<Rightarrow>
                 (let st2 = st1\<lparr>currentMinHeight :=
                        (if Height b <s currentMinHeight st1 then Height b else currentMinHeight st1)\<rparr>
                  in case walkMessages fuel cs lib ts inclRecentRoots skipOldMsgs b (walked st2) of
                    (wlk, Inl e) \<Rightarrow> (st2\<lparr>walked := wlk\<rparr>, Some e)
                  | (wlk, Inr mcids) \<Rightarrow>
                     (case walkParents b (blocksToWalk st2, mcids) of
                        (toWalk, cids) \<Rightarrow>
                         (let st3 = st2\<lparr>walked := wlk, blocksToWalk := toWalk\<rparr>
                          in case walkStateRoots fuel cs lib ts inclRecentRoots skipMsgReceipts b wlk cids of
                            (wlk', Inl e) \<Rightarrow> (st3\<lparr>walked := wlk'\<rparr>, Some e)
                          | (wlk', Inr out) \<Rightarrow>
                             (case emitOut cb out (seen st3, cbState st3) of
                                ((sn, w), r) \<Rightarrow> (st3\<lparr>walked := wlk', seen := sn, cbState := w\<rparr>, r))))))))"

text \<open>
  The loop of lines 223-229. Its first argument bounds the number of iterations; \<open>depth\<close>
  is the budget handed to \<open>recurseLinks\<close>.
\<close>

fun walkLoop ::
    "nat \<Rightarrow> nat \<Rightarrow> 'b ChainStore \<Rightarrow> 'b cbor \<Rightarrow> TipSet \<Rightarrow> ChainEpoch \<Rightarrow> bool \<Rightarrow> bool \<Rightarrow> 'w callback
       \<Rightarrow> 'w walkState \<Rightarrow> 'w walkState \<times> error option" where
  "walkLoop 0 depth cs lib ts incl skipOldMsgs skipMsgReceipts cb st =
     (case blocksToWalk st of [] \<Rightarrow> (st, None) | next # rest \<Rightarrow> (st, Some OutOfFuel))"
| "walkLoop (Suc n) depth cs lib ts incl skipOldMsgs skipMsgReceipts cb st =
     (case blocksToWalk st of
        [] \<Rightarrow> (st, None)
      | next # rest \<Rightarrow>
         (case walkChain depth cs lib ts incl skipOldMsgs skipMsgReceipts cb next
                 (st\<lparr>blocksToWalk := rest\<rparr>) of
            (st', Some e) \<Rightarrow> (st', Some e)
          | (st', None) \<Rightarrow> walkLoop n depth cs lib ts incl skipOldMsgs skipMsgReceipts cb st'))"

text \<open>
  \<^verbatim>\<open>WalkSnapshot\<close>, lines 119-234: a nil tip-set stands for the heaviest one. The result is
  the callback's final state and the error returned (\<open>None\<close> for nil).
\<close>

definition WalkSnapshot ::
    "nat \<Rightarrow> 'b ChainStore \<Rightarrow> 'b cbor \<Rightarrow> TipSet option \<Rightarrow> ChainEpoch \<Rightarrow> bool \<Rightarrow> bool \<Rightarrow> 'w callback \<Rightarrow> 'w
       \<Rightarrow> 'w \<times> error option" where
  "WalkSnapshot fuel cs lib tso inclRecentRoots skipOldMsgs skipMsgReceipts cb w0 =
     (let ts = (case tso of None \<Rightarrow> heaviestTipSet cs | Some t \<Rightarrow> t) in
      case walkLoop fuel fuel cs lib ts inclRecentRoots skipOldMsgs skipMsgReceipts cb
             \<lparr>seen = {}, walked = {}, blocksToWalk = Cids ts, currentMinHeight = TsHeight ts,
              cbState = w0\<rparr> of
        (st, r) \<Rightarrow> (cbState st, r))"

text \<open>
  A callback that records each identifier it is called with, in order, before it runs
  the caller's callback: the record is the sequence of identifiers passed to \<^verbatim>\<open>cb\<close>.
\<close>

definition recording :: "'w callback \<Rightarrow> (cid list \<times> 'w) callback" where
  "recording cb c s = (case cb c (snd s) of (w', r) \<Rightarrow> ((fst s @ [c], w'), r))"

definition emitted ::
    "nat \<Rightarrow> 'b ChainStore \<Rightarrow> 'b cbor \<Rightarrow> TipSet option \<Rightarrow> ChainEpoch \<Rightarrow> bool \<Rightarrow> bool \<Rightarrow> 'w callback \<Rightarrow> 'w
       \<Rightarrow> cid list" where
  "emitted fuel cs lib tso inclRecentRoots skipOldMsgs skipMsgReceipts cb w0 =
     fst (fst (WalkSnapshot fuel cs lib tso inclRecentRoots skipOldMsgs skipMsgReceipts
                 (recording cb) ([], w0)))"

section \<open>Export\<close>

text \<open>
  Modelled from the spec: \<^verbatim>\<open>bstore.Union\<close>, which \<^verbatim>\<open>UnionStore\<close> (lines 25-27) calls, is
  not in the snapshot file. The specification reads one store through \<open>get(id)\<close>; the
  union of two answers with the bytes of the first member that has the identifier, in
  the order of line 26: the state blockstore, then the chain blockstore.
\<close>

definition UnionStore :: "'b ChainStore \<Rightarrow> 'b blockstore" where
  "UnionStore cs c = (case stateGet cs c of Some data \<Rightarrow> Some data | None \<Rightarrow> chainGet cs c)"

text \<open>
  The archive is library code (go-car): a stream is modelled by the frames its bytes
  decode to, a header with the roots and the version, or a record of an identifier and
  its bytes. A writer takes a frame and answers with its new state and an error, as
  \<^verbatim>\<open>car.WriteHeader\<close> and \<^verbatim>\<open>carutil.LdWrite\<close> do on an \<^verbatim>\<open>io.Writer\<close>.
\<close>

datatype 'b frame = Header "cid list" nat | Block cid 'b

type_synonym ('b, 'w) writer = "'w \<Rightarrow> 'b frame \<Rightarrow> 'w \<times> error option"

text \<open>The callback of lines 40-51.\<close>

definition exportCb :: "('b, 'w) writer \<Rightarrow> 'b ChainStore \<Rightarrow> 'w callback" where
  "exportCb wr cs c w =
     (case UnionStore cs c of
        None \<Rightarrow> (w, Some (GetFailed c))
      | Some data \<Rightarrow> wr w (Block c data))"

text \<open>
  \<^verbatim>\<open>Export\<close>, lines 29-52, for a tip-set that is not nil (line 31 reads \<^verbatim>\<open>ts.Cids()\<close>).
  Receipts are always skipped (the \<^verbatim>\<open>true\<close> of line 40).
\<close>

definition Export ::
    "nat \<Rightarrow> 'b ChainStore \<Rightarrow> 'b cbor \<Rightarrow> TipSet \<Rightarrow> ChainEpoch \<Rightarrow> bool \<Rightarrow> ('b, 'w) writer \<Rightarrow> 'w
       \<Rightarrow> 'w \<times> error option" where
  "Export fuel cs lib ts inclRecentRoots skipOldMsgs wr w =
     (case wr w (Header (Cids ts) 1) of
        (w1, Some e) \<Rightarrow> (w1, Some e)
      | (w1, None) \<Rightarrow>
          WalkSnapshot fuel cs lib (Some ts) inclRecentRoots skipOldMsgs True (exportCb wr cs) w1)"

text \<open>A writer into memory, which never fails: the stream is the list of frames written.\<close>

definition bufWrite :: "('b, 'b frame list) writer" where
  "bufWrite w f = (w @ [f], None)"

section \<open>Import\<close>

text \<open>
  \<^verbatim>\<open>Import\<close>, lines 54-117, runs beside the goroutines it starts (line 97). The model is
  a machine whose state holds the position of \<^verbatim>\<open>Import\<close> itself, the rest of the input,
  \<^verbatim>\<open>buf\<close>, the contents of the channel \<^verbatim>\<open>putThrottle\<close> (oldest first), the batches of the
  goroutines that have not sent their result yet, and the node with its blockstores.
\<close>

datatype pc = Reading | Draining nat | Returned "error + TipSet"

record 'b importState =
  pc :: pc
  roots :: "cid list"
  input :: "'b frame list"
  buf :: "(cid \<times> 'b) list"
  putThrottle :: "error option list"
  running :: "(cid \<times> 'b) list list"
  node :: "'b ChainStore"

definition parallelPuts :: nat where
  "parallelPuts = 5"

text \<open>
  Modelled from the spec: \<^verbatim>\<open>PutMany\<close> of the blockstore interface is not in the snapshot
  file. By section 6 a call \<open>putMany\<close> stores all its pairs or fails as a whole. Line 66
  takes the state blockstore. Which calls fail is a parameter: \<open>wfail\<close> gives the error
  of a batch.
\<close>

definition PutMany ::
    "((cid \<times> 'b) list \<Rightarrow> error option) \<Rightarrow> 'b ChainStore \<Rightarrow> (cid \<times> 'b) list
       \<Rightarrow> 'b ChainStore \<times> error option" where
  "PutMany wfail cs blks =
     (case wfail blks of
        Some e \<Rightarrow> (cs, Some e)
      | None \<Rightarrow>
          (cs\<lparr>blockstores := (blockstores cs)
                (stateBlockstore cs := foldl (\<lambda>m (c, data). m(c \<mapsto> data)) (stateGet cs) blks)\<rparr>,
           None))"

text \<open>
  One step of \<^verbatim>\<open>Import\<close> itself: an iteration of the loop of lines 75-102, an iteration
  of the loop of lines 105-109, or lines 111-116. A receive from the empty channel waits:
  the state stays as it is. \<open>load\<close> is \<^verbatim>\<open>cs.LoadTipSet\<close> on the key of the roots, code of
  the repository outside the snapshot file.

  \<^verbatim>\<open>br.Next()\<close> (line 76) is library code (go-car): it reads the next record, hashes its
  bytes under the prefix of its identifier and returns an error when the result is not
  the identifier. The hash is a parameter: \<open>intact c data\<close> says that the bytes \<open>data\<close>
  hash to \<open>c\<close> (a reader that trusts its input is the parameter that holds always). A
  record that is not intact, like a header where a record should be, makes \<^verbatim>\<open>Import\<close>
  return the error of the reader (line 87), before the record is appended to \<^verbatim>\<open>buf\<close>.
\<close>

definition mainStep ::
    "(cid \<Rightarrow> 'b \<Rightarrow> bool) \<Rightarrow> ((cid \<times> 'b) list \<Rightarrow> error option)
       \<Rightarrow> ('b ChainStore \<Rightarrow> cid list \<Rightarrow> error + TipSet) \<Rightarrow> 'b importState \<Rightarrow> 'b importState" where
  "mainStep intact wfail load st =
     (case pc st of
        Returned r \<Rightarrow> st
      | Reading \<Rightarrow>
         (case input st of
            [] \<Rightarrow>
              (if buf st = [] then st\<lparr>pc := Draining 0\<rparr>
               else case PutMany wfail (node st) (buf st) of
                   (cs', Some e) \<Rightarrow> st\<lparr>pc := Returned (Inl e)\<rparr>
                 | (cs', None) \<Rightarrow> st\<lparr>pc := Draining 0, node := cs'\<rparr>)
          | Header rs v # rest \<Rightarrow> st\<lparr>pc := Returned (Inl ReadFailed)\<rparr>
          | Block c data # rest \<Rightarrow>
              if \<not> intact c data then st\<lparr>pc := Returned (Inl ReadFailed)\<rparr>
              else if 1000 < length (buf st @ [(c, data)]) then
                (case putThrottle st of
                   [] \<Rightarrow> st
                 | Some e # ch \<Rightarrow>
                     st\<lparr>pc := Returned (Inl e), input := rest, buf := buf st @ [(c, data)],
                        putThrottle := ch\<rparr>
                 | None # ch \<Rightarrow>
                     st\<lparr>input := rest, buf := [], putThrottle := ch,
                        running := running st @ [buf st @ [(c, data)]]\<rparr>)
              else st\<lparr>input := rest, buf := buf st @ [(c, data)]\<rparr>)
      | Draining i \<Rightarrow>
         (if i < parallelPuts then
            (case putThrottle st of
               [] \<Rightarrow> st
             | Some e # ch \<Rightarrow> st\<lparr>pc := Returned (Inl e), putThrottle := ch\<rparr>
             | None # ch \<Rightarrow> st\<lparr>pc := Draining (Suc i), putThrottle := ch\<rparr>)
          else st\<lparr>pc := Returned (load (node st) (roots st))\<rparr>))"

text \<open>
  The goroutine of lines 97-99 with the batch at position \<open>i\<close> finishes: it writes its
  batch and sends the result. It runs on after \<^verbatim>\<open>Import\<close> has returned.
\<close>

definition workerStep :: "((cid \<times> 'b) list \<Rightarrow> error option) \<Rightarrow> nat \<Rightarrow> 'b importState \<Rightarrow> 'b importState" where
  "workerStep wfail i st =
     (if i < length (running st) then
        (case PutMany wfail (node st) (running st ! i) of
           (cs', r) \<Rightarrow>
             st\<lparr>running := take i (running st) @ drop (Suc i) (running st),
                putThrottle := putThrottle st @ [r], node := cs'\<rparr>)
      else st)"

text \<open>A schedule says who moves next; an event that cannot happen changes nothing.\<close>

datatype event = Main | Worker nat

definition importStep ::
    "(cid \<Rightarrow> 'b \<Rightarrow> bool) \<Rightarrow> ((cid \<times> 'b) list \<Rightarrow> error option)
       \<Rightarrow> ('b ChainStore \<Rightarrow> cid list \<Rightarrow> error + TipSet) \<Rightarrow> 'b importState \<Rightarrow> event
       \<Rightarrow> 'b importState" where
  "importStep intact wfail load st ev =
     (case ev of Main \<Rightarrow> mainStep intact wfail load st | Worker i \<Rightarrow> workerStep wfail i st)"

text \<open>
  Lines 61-74: \<^verbatim>\<open>carv2.NewBlockReader\<close> reads the header (an error when there is none or
  its version is not 1), and the channel is filled with \<open>parallelPuts\<close> nil values.
\<close>

definition importStart :: "'b ChainStore \<Rightarrow> 'b frame list \<Rightarrow> 'b importState" where
  "importStart cs r =
     (case r of
        Header rs v # rest \<Rightarrow>
          \<lparr>pc = (if v = 1 then Reading else Returned (Inl ReadFailed)), roots = rs, input = rest,
           buf = [], putThrottle = replicate parallelPuts None, running = [], node = cs\<rparr>
      | _ \<Rightarrow>
          \<lparr>pc = Returned (Inl ReadFailed), roots = [], input = [], buf = [],
           putThrottle = [], running = [], node = cs\<rparr>)"

text \<open>
  The state of \<^verbatim>\<open>Import\<close> on the stream \<open>r\<close> after the events of a schedule. \<^verbatim>\<open>Import\<close> has
  returned \<open>r\<close> when \<open>pc\<close> is \<open>Returned r\<close>.
\<close>

definition Import ::
    "(cid \<Rightarrow> 'b \<Rightarrow> bool) \<Rightarrow> ((cid \<times> 'b) list \<Rightarrow> error option)
       \<Rightarrow> ('b ChainStore \<Rightarrow> cid list \<Rightarrow> error + TipSet)
       \<Rightarrow> 'b ChainStore \<Rightarrow> 'b frame list \<Rightarrow> event list \<Rightarrow> 'b importState" where
  "Import intact wfail load cs r sched =
     foldl (importStep intact wfail load) (importStart cs r) sched"

section \<open>Notions used in the statements\<close>

text \<open>
  The expander as the specification words it (section 4.2): the output lists the root
  first, then each child's full expansion in scan order; only a \<open>DagCBOR\<close> root is fetched
  and scanned; a child already in the walked set contributes nothing. There is no
  accumulator and no error flag: a failure is returned where it happens.
\<close>

fun preorder :: "nat \<Rightarrow> 'b blockstore \<Rightarrow> 'b cbor \<Rightarrow> cid set \<Rightarrow> cid \<Rightarrow> cid set \<times> (error + cid list)"
  and preorderChildren ::
    "nat \<Rightarrow> 'b blockstore \<Rightarrow> 'b cbor \<Rightarrow> cid set \<Rightarrow> cid list \<Rightarrow> cid set \<times> (error + cid list)"
where
  "preorder 0 bs lib wlk root = (wlk, Inl OutOfFuel)"
| "preorder (Suc n) bs lib wlk root =
     (if Codec root \<noteq> DagCBOR then (wlk, Inr [root])
      else case bs root of
        None \<Rightarrow> (wlk, Inl (GetFailed root))
      | Some data \<Rightarrow>
          (case preorderChildren n bs lib wlk (fst (scanForLinks lib data)) of
            (wlk', r) \<Rightarrow>
              if snd (scanForLinks lib data) then (wlk', Inl (ScanFailed root))
              else (case r of Inl e \<Rightarrow> (wlk', Inl e) | Inr ys \<Rightarrow> (wlk', Inr (root # ys)))))"
| "preorderChildren n bs lib wlk [] = (wlk, Inr [])"
| "preorderChildren n bs lib wlk (c # cs) =
     (if c \<in> wlk then preorderChildren n bs lib wlk cs
      else case preorder n bs lib (insert c wlk) c of
          (wlk1, Inl e) \<Rightarrow> (wlk1, Inl e)
        | (wlk1, Inr ys) \<Rightarrow>
            (case preorderChildren n bs lib wlk1 cs of
               (wlk2, Inl e) \<Rightarrow> (wlk2, Inl e)
             | (wlk2, Inr zs) \<Rightarrow> (wlk2, Inr (ys @ zs))))"

text \<open>The header stored under an identifier in the chain blockstore, if it decodes.\<close>

definition headerAt :: "'b ChainStore \<Rightarrow> 'b cbor \<Rightarrow> cid \<Rightarrow> BlockHeader option" where
  "headerAt cs lib c = (case chainGet cs c of None \<Rightarrow> None | Some data \<Rightarrow> unmarshalCBOR lib data)"

text \<open>
  The identifiers that reach the frontier \<^verbatim>\<open>blocksToWalk\<close>: the blocks of the tip-set, and
  the parents of a header above height 0 whose identifier is in the sequence \<open>tr\<close>.
\<close>

definition walkedBlockId :: "'b ChainStore \<Rightarrow> 'b cbor \<Rightarrow> TipSet \<Rightarrow> cid list \<Rightarrow> cid \<Rightarrow> bool" where
  "walkedBlockId cs lib ts tr c =
     (c \<in> set (Cids ts) \<or>
      (\<exists>c' \<in> set tr. case headerAt cs lib c' of
          None \<Rightarrow> False | Some b \<Rightarrow> 0 <s Height b \<and> c \<in> set (Parents b)))"

text \<open>The test of lines 197-208 on the prefix of an identifier.\<close>

definition passesFilter :: "cid \<Rightarrow> bool" where
  "passesFilter c = (MhType c \<noteq> IDENTITY \<and> (Codec c = Raw \<or> Codec c = DagCBOR))"

text \<open>The state of a recorded walk without the record.\<close>

definition unrecorded :: "(cid list \<times> 'w) walkState \<Rightarrow> 'w walkState" where
  "unrecorded st = \<lparr>seen = seen st, walked = walked st, blocksToWalk = blocksToWalk st,
     currentMinHeight = currentMinHeight st, cbState = snd (cbState st)\<rparr>"

text \<open>The recorded sequence has no repetition and lies within \<^verbatim>\<open>seen\<close>.\<close>

definition traceInv :: "(cid list \<times> 'w) walkState \<Rightarrow> bool" where
  "traceInv st = (distinct (fst (cbState st)) \<and> set (fst (cbState st)) \<subseteq> seen st)"


text \<open>
  What is recorded passes the filter or is a block identifier, and the frontier holds
  block identifiers only.
\<close>

definition filterInv :: "'b ChainStore \<Rightarrow> 'b cbor \<Rightarrow> TipSet \<Rightarrow> (cid list \<times> 'w) walkState \<Rightarrow> bool" where
  "filterInv cs lib ts st =
     ((\<forall>c \<in> set (fst (cbState st)). passesFilter c \<or> walkedBlockId cs lib ts (fst (cbState st)) c) \<and>
      (\<forall>c \<in> set (blocksToWalk st). walkedBlockId cs lib ts (fst (cbState st)) c))"

text \<open>
  Modelled from the spec: \<^verbatim>\<open>cs.LoadTipSet\<close> is not in the snapshot file. Section 4.5 has
  the declared roots resolved into a tip-set, failing when a referenced header is
  missing; section 3 makes a tip-set a set of headers that share one height. The
  properties below take the resolver as a parameter \<open>load\<close>; this one is used in the
  examples.
\<close>

definition LoadTipSet :: "'b cbor \<Rightarrow> 'b ChainStore \<Rightarrow> cid list \<Rightarrow> error + TipSet" where
  "LoadTipSet lib cs key =
     (case map (headerAt cs lib) key of
        [] \<Rightarrow> Inl LoadTipSetFailed
      | None # hs \<Rightarrow> Inl LoadTipSetFailed
      | Some b # hs \<Rightarrow>
          if list_all (\<lambda>h. map_option Height h = Some (Height b)) hs
          then Inr \<lparr>Cids = key, TsHeight = Height b\<rparr>
          else Inl LoadTipSetFailed)"

text \<open>The frame of a record, and the identifiers of the records in a stream.\<close>

definition toFrame :: "cid \<times> 'b \<Rightarrow> 'b frame" where
  "toFrame p = Block (fst p) (snd p)"

definition blockIds :: "'b frame list \<Rightarrow> cid set" where
  "blockIds w = {c. \<exists>data. Block c data \<in> set w}"

text \<open>
  The slots of the channel: every value in the channel or still owed by a goroutine is
  one of the \<open>parallelPuts\<close> slots, the drain loop has taken \<open>i\<close> of them, an error in the
  channel is the error of some batch, and so is an error returned, unless it comes from
  the reader or the resolver.
\<close>

definition importInv :: "((cid \<times> 'b) list \<Rightarrow> error option) \<Rightarrow> ('b ChainStore \<Rightarrow> cid list \<Rightarrow> error + TipSet)
    \<Rightarrow> 'b importState \<Rightarrow> bool" where
  "importInv wfail load st =
     ((\<forall>e. Some e \<in> set (putThrottle st) \<longrightarrow> (\<exists>b. wfail b = Some e)) \<and>
      (case pc st of
         Reading \<Rightarrow> length (putThrottle st) + length (running st) = parallelPuts
       | Draining i \<Rightarrow> length (putThrottle st) + length (running st) + i = parallelPuts
       | Returned (Inr t) \<Rightarrow> running st = [] \<and> putThrottle st = []
       | Returned (Inl e) \<Rightarrow>
           length (putThrottle st) + length (running st) \<le> parallelPuts \<and>
           (e = ReadFailed \<or> (\<exists>b. wfail b = Some e) \<or> (\<exists>cs k. load cs k = Inl e))))"

text \<open>
  The import of a stream whose records agree with \<open>f\<close>, with writes that do not fail,
  into a node whose two blockstores are one: every identifier of \<open>K\<close> is stored with its
  bytes under \<open>f\<close> or still on its way, and the resolver runs on a node that stores
  them all.
\<close>

definition roundInv ::
    "'b blockstore \<Rightarrow> cid set \<Rightarrow> ('b ChainStore \<Rightarrow> cid list \<Rightarrow> error + TipSet) \<Rightarrow> cid list
       \<Rightarrow> 'b importState \<Rightarrow> bool" where
  "roundInv f K load rs st =
     (roots st = rs \<and> chainBlockstore (node st) = stateBlockstore (node st) \<and>
      (\<forall>x \<in> set (putThrottle st). x = None) \<and>
      (\<forall>fr \<in> set (input st). \<exists>c data. fr = Block c data \<and> f c = Some data) \<and>
      (\<forall>p \<in> set (buf st). f (fst p) = Some (snd p)) \<and>
      (\<forall>b \<in> set (running st). \<forall>p \<in> set b. f (fst p) = Some (snd p)) \<and>
      (case pc st of
         Reading \<Rightarrow>
           (\<forall>c \<in> K. stateGet (node st) c = f c \<or> c \<in> fst ` set (buf st) \<or>
               (\<exists>b \<in> set (running st). c \<in> fst ` set b) \<or>
               (\<exists>data. Block c data \<in> set (input st)))
       | Draining i \<Rightarrow>
           input st = [] \<and>
           (\<forall>c \<in> K. stateGet (node st) c = f c \<or> (\<exists>b \<in> set (running st). c \<in> fst ` set b))
       | Returned r \<Rightarrow>
           (\<exists>n. r = load n rs \<and> chainBlockstore n = stateBlockstore n \<and>
                (\<forall>c \<in> K. stateGet n c = f c))))"

text \<open>
  Who can move in a state of the import. \<^verbatim>\<open>Import\<close> itself can, unless it has returned
  or stands at a receive from the empty channel (lines 93 and 106: a record read intact
  that fills the batch, or a turn of the drain loop); the goroutine at position \<open>i\<close> can
  when there is one (its send finds room: the values in the channel and the goroutines
  together never exceed the capacity \<open>parallelPuts\<close>). \<open>stepsTaken\<close> counts the events of a
  schedule that could move when their turn came; the others wait.
\<close>

definition enabled :: "(cid \<Rightarrow> 'b \<Rightarrow> bool) \<Rightarrow> 'b importState \<Rightarrow> event \<Rightarrow> bool" where
  "enabled intact st ev =
     (case ev of
        Worker i \<Rightarrow> i < length (running st)
      | Main \<Rightarrow>
         (case pc st of
            Returned r \<Rightarrow> False
          | Draining i \<Rightarrow> i < parallelPuts \<longrightarrow> putThrottle st \<noteq> []
          | Reading \<Rightarrow>
             (case input st of
                Block c data # rest \<Rightarrow>
                  intact c data \<and> 1000 < length (buf st @ [(c, data)]) \<longrightarrow> putThrottle st \<noteq> []
              | _ \<Rightarrow> True)))"

fun stepsTaken ::
    "(cid \<Rightarrow> 'b \<Rightarrow> bool) \<Rightarrow> ((cid \<times> 'b) list \<Rightarrow> error option)
       \<Rightarrow> ('b ChainStore \<Rightarrow> cid list \<Rightarrow> error + TipSet) \<Rightarrow> 'b importState \<Rightarrow> event list \<Rightarrow> nat" where
  "stepsTaken intact wfail load st [] = 0"
| "stepsTaken intact wfail load st (ev # sched) =
     (if enabled intact st ev then 1 else 0) +
     stepsTaken intact wfail load (importStep intact wfail load st ev) sched"

text \<open>
  A bound on the moves still to come: two for every frame not read yet (the read, and
  the goroutine it may start), one for every goroutine, and the turns of \<^verbatim>\<open>Import\<close> after
  the end of the stream.
\<close>

definition movesLeft :: "'b importState \<Rightarrow> nat" where
  "movesLeft st =
     length (running st) +
     (case pc st of
        Reading \<Rightarrow> 2 * length (input st) + parallelPuts + 2
      | Draining i \<Rightarrow> parallelPuts - i + 1
      | Returned r \<Rightarrow> 0)"

section \<open>An example chain\<close>

text \<open>
  Stored bytes are kept abstract in the model; in the example an object is what its bytes
  decode to: a block header, or a structured node with the links a scan finds in it and
  whether the scan ends in an error.
\<close>

datatype obj = HeaderObj BlockHeader | NodeObj "cid list" bool

definition exLib :: "obj cbor" where
  "exLib = \<lparr>unmarshalCBOR = (\<lambda>x. case x of HeaderObj b \<Rightarrow> Some b | NodeObj ls e \<Rightarrow> None),
            scanForLinks = (\<lambda>x. case x of HeaderObj b \<Rightarrow> ([], True) | NodeObj ls e \<Rightarrow> (ls, e))\<rparr>"

definition dag :: "nat \<Rightarrow> cid" where
  "dag n = Cid DagCBOR 0x12 n"

definition rawc :: "nat \<Rightarrow> cid" where
  "rawc n = Cid Raw 0x12 n"

text \<open>
  Three blocks at heights 2, 1 and 0. The message DAGs of the upper two blocks share the
  leaf \<open>rawc 100\<close>, their state DAGs share the node \<open>dag 23\<close>, which links to an
  identity-hash identifier and to one with codec \<open>0x70\<close>.
\<close>

definition exHeader2 :: BlockHeader where
  "exHeader2 = \<lparr>Height = 2, Parents = [dag 1], Messages = dag 12, ParentStateRoot = dag 22,
      ParentMessageReceipts = dag 32\<rparr>"

definition exHeader1 :: BlockHeader where
  "exHeader1 = \<lparr>Height = 1, Parents = [dag 0], Messages = dag 11, ParentStateRoot = dag 21,
      ParentMessageReceipts = dag 31\<rparr>"

definition exHeader0 :: BlockHeader where
  "exHeader0 = \<lparr>Height = 0, Parents = [rawc 40], Messages = dag 10, ParentStateRoot = dag 20,
      ParentMessageReceipts = dag 30\<rparr>"

definition exObjects :: "(cid \<times> obj) list" where
  "exObjects =
    [(dag 2, HeaderObj exHeader2),
     (dag 1, HeaderObj exHeader1),
     (dag 0, HeaderObj exHeader0),
     (dag 12, NodeObj [rawc 100, dag 101] False),
     (dag 101, NodeObj [rawc 100, rawc 102] False),
     (dag 11, NodeObj [rawc 100] False),
     (dag 10, NodeObj [] False),
     (dag 22, NodeObj [dag 23, rawc 24] False),
     (dag 23, NodeObj [rawc 24, Cid Raw IDENTITY 25, Cid 0x70 0x12 26] False),
     (dag 21, NodeObj [dag 23] False),
     (dag 20, NodeObj [] False),
     (dag 32, NodeObj [dag 33] False),
     (rawc 100, NodeObj [] False),
     (rawc 102, NodeObj [] False),
     (rawc 24, NodeObj [] False),
     (rawc 40, NodeObj [] False)]"

definition exTipSet :: TipSet where
  "exTipSet = \<lparr>Cids = [dag 2], TsHeight = 2\<rparr>"

definition exStore :: "obj ChainStore" where
  "exStore = \<lparr>blockstores = (\<lambda>r. map_of exObjects), chainBlockstore = 0, stateBlockstore = 0,
     heaviestTipSet = exTipSet\<rparr>"

definition okCb :: "unit callback" where
  "okCb c w = (w, None)"


text \<open>
  A block at height 1 whose header names two parents that the filter of lines 197-208
  would drop: one with the identity multihash, one with codec \<open>0x70\<close>. Both are stored
  and decode to a genesis header.
\<close>

definition exOddHeader :: BlockHeader where
  "exOddHeader = \<lparr>Height = 1, Parents = [Cid DagCBOR IDENTITY 61, Cid 0x70 0x12 62],
      Messages = rawc 63, ParentStateRoot = rawc 64, ParentMessageReceipts = rawc 65\<rparr>"

definition exOddGenesis :: BlockHeader where
  "exOddGenesis = \<lparr>Height = 0, Parents = [], Messages = rawc 63, ParentStateRoot = rawc 64,
      ParentMessageReceipts = rawc 65\<rparr>"

definition exOddTipSet :: TipSet where
  "exOddTipSet = \<lparr>Cids = [dag 60], TsHeight = 1\<rparr>"

definition exOddStore :: "obj ChainStore" where
  "exOddStore = \<lparr>blockstores = (\<lambda>r. map_of
       [(dag 60, HeaderObj exOddHeader),
        (Cid DagCBOR IDENTITY 61, HeaderObj exOddGenesis),
        (Cid 0x70 0x12 62, HeaderObj exOddGenesis)]),
     chainBlockstore = 0, stateBlockstore = 0, heaviestTipSet = exOddTipSet\<rparr>"

text \<open>A state of the walk in which nothing was seen yet and one block waits.\<close>

definition exWalkState :: "unit walkState" where
  "exWalkState = \<lparr>seen = {}, walked = {}, blocksToWalk = [dag 7], currentMinHeight = 2,
      cbState = ()\<rparr>"

text \<open>
  A stream of two full batches of 1001 records each, and a state blockstore that fails
  to write any batch holding the first record.
\<close>

definition exBlock :: "nat \<Rightarrow> cid \<times> obj" where
  "exBlock n = (rawc n, NodeObj [] False)"



text \<open>
  The hash of the examples: the bytes that hash to an identifier are those the example
  chain stores under it, and those of a record \<open>exBlock n\<close>.
\<close>

definition exIntact :: "cid \<Rightarrow> obj \<Rightarrow> bool" where
  "exIntact c data = (map_of exObjects c = Some data \<or> (c, data) = exBlock (Digest c))"

text \<open>
  What \<open>Export\<close> writes for the example chain with a window of one epoch, skipping old
  messages; and a node whose blockstores are one empty store.
\<close>

definition exArchive :: "obj frame list" where
  "exArchive =
    [Header [dag 2] 1,
     Block (dag 2) (HeaderObj exHeader2),
     Block (dag 12) (NodeObj [rawc 100, dag 101] False),
     Block (rawc 100) (NodeObj [] False),
     Block (dag 101) (NodeObj [rawc 100, rawc 102] False),
     Block (rawc 102) (NodeObj [] False),
     Block (dag 22) (NodeObj [dag 23, rawc 24] False),
     Block (dag 23) (NodeObj [rawc 24, Cid Raw IDENTITY 25, Cid 0x70 0x12 26] False),
     Block (rawc 24) (NodeObj [] False),
     Block (dag 1) (HeaderObj exHeader1),
     Block (dag 0) (HeaderObj exHeader0),
     Block (rawc 40) (NodeObj [] False),
     Block (dag 20) (NodeObj [] False)]"

definition exEmptyStore :: "obj ChainStore" where
  "exEmptyStore = \<lparr>blockstores = (\<lambda>r c. None), chainBlockstore = 0, stateBlockstore = 0,
     heaviestTipSet = \<lparr>Cids = [], TsHeight = 0\<rparr>\<rparr>"

text \<open>
  The archive with the bytes of its third record replaced: they do not hash to \<open>dag 12\<close>.
\<close>

definition exTampered :: "obj frame list" where
  "exTampered = exArchive[2 := Block (dag 12) (NodeObj [] False)]"

text \<open>
  A chain of two blocks in which the receipts root of the block at height 1 is the
  state root of genesis, \<open>dag 80\<close>, a node with one link.
\<close>

definition exTopHeader :: BlockHeader where
  "exTopHeader = \<lparr>Height = 1, Parents = [dag 70], Messages = rawc 73, ParentStateRoot = rawc 74,
      ParentMessageReceipts = dag 80\<rparr>"

definition exGenesisHeader :: BlockHeader where
  "exGenesisHeader = \<lparr>Height = 0, Parents = [], Messages = rawc 73, ParentStateRoot = dag 80,
      ParentMessageReceipts = rawc 75\<rparr>"

definition exSharedTipSet :: TipSet where
  "exSharedTipSet = \<lparr>Cids = [dag 71], TsHeight = 1\<rparr>"

definition exSharedStore :: "obj ChainStore" where
  "exSharedStore = \<lparr>blockstores = (\<lambda>r. map_of
       [(dag 71, HeaderObj exTopHeader),
        (dag 70, HeaderObj exGenesisHeader),
        (dag 80, NodeObj [rawc 81] False)]),
     chainBlockstore = 0, stateBlockstore = 0, heaviestTipSet = exSharedTipSet\<rparr>"

text \<open>A state of a recorded walk in which nothing was seen yet and one block waits.\<close>

definition exRecState :: "(cid list \<times> unit) walkState" where
  "exRecState = \<lparr>seen = {}, walked = {}, blocksToWalk = [dag 7], currentMinHeight = 2,
      cbState = ([], ())\<rparr>"

text \<open>The state of a recorded walk of the example chain after the tip-set block was taken.\<close>

definition exRecStart :: "(cid list \<times> unit) walkState" where
  "exRecStart = \<lparr>seen = {}, walked = {}, blocksToWalk = [], currentMinHeight = 2,
      cbState = ([], ())\<rparr>"

section \<open>Properties of the walk\<close>

lemma recording_apply:
  "recording cb c (tr, w) = (case cb c w of (w', r) \<Rightarrow> ((tr @ [c], w'), r))"
  by (simp add: recording_def)

lemma emitOut_recording_inv:
  "emitOut (recording cb) out (sn, (tr, w)) = ((sn', (tr', w')), r) \<Longrightarrow>
   distinct tr \<Longrightarrow> set tr \<subseteq> sn \<Longrightarrow> distinct tr' \<and> set tr' \<subseteq> sn'"
proof (induction out arbitrary: sn tr w)
  case Nil
  then show ?case by simp
next
  case (Cons c out)
  consider (skip) "c \<in> sn" | (drop) "c \<notin> sn" "MhType c = IDENTITY \<or> (Codec c \<noteq> Raw \<and> Codec c \<noteq> DagCBOR)"
    | (call) "c \<notin> sn" "MhType c \<noteq> IDENTITY" "\<not> (Codec c \<noteq> Raw \<and> Codec c \<noteq> DagCBOR)"
    by blast
  then show ?case
  proof cases
    case skip
    with Cons.prems(1) have "emitOut (recording cb) out (sn, (tr, w)) = ((sn', (tr', w')), r)"
      by simp
    then show ?thesis using Cons.IH Cons.prems(2,3) by blast
  next
    case drop
    with Cons.prems(1) have "emitOut (recording cb) out (insert c sn, (tr, w)) = ((sn', (tr', w')), r)"
      by (auto split: if_splits)
    moreover have "set tr \<subseteq> insert c sn" using Cons.prems(3) by blast
    ultimately show ?thesis using Cons.IH Cons.prems(2) by blast
  next
    case call
    obtain w1 e where cb: "cb c w = (w1, e)" by (cases "cb c w")
    have fresh: "distinct (tr @ [c])" "set (tr @ [c]) \<subseteq> insert c sn"
      using call(1) Cons.prems(2,3) by auto
    show ?thesis
    proof (cases e)
      case None
      with call cb Cons.prems(1)
      have "emitOut (recording cb) out (insert c sn, (tr @ [c], w1)) = ((sn', (tr', w')), r)"
        by (auto simp: recording_apply split: if_splits)
      then show ?thesis using Cons.IH fresh by blast
    next
      case (Some err)
      with call cb Cons.prems(1) have "sn' = insert c sn" "tr' = tr @ [c]"
        by (auto simp: recording_apply split: if_splits)
      then show ?thesis using fresh by simp
    qed
  qed
qed

lemma walkChain_shape:
  assumes run: "walkChain fuel cs lib ts incl so sr cb blk st = (st', r)"
  shows "(blk \<in> seen st \<and> st' = st \<and> r = None) \<or>
    (blk \<notin> seen st \<and> (\<exists>w1 e. cb blk (cbState st) = (w1, e) \<and>
        ((seen st' = insert blk (seen st) \<and> cbState st' = w1 \<and> r \<noteq> None) \<or>
         (e = None \<and> (\<exists>out. emitOut cb out (insert blk (seen st), w1) = ((seen st', cbState st'), r))))))"
proof (cases "blk \<in> seen st")
  case True
  then show ?thesis using run by (simp add: walkChain_def)
next
  case False
  obtain w1 e where cb: "cb blk (cbState st) = (w1, e)" by (cases "cb blk (cbState st)")
  show ?thesis
  proof (cases e)
    case (Some err)
    then show ?thesis using run False cb by (auto simp: walkChain_def Let_def)
  next
    case None
    note e = None
    show ?thesis
    proof (cases "chainGet cs blk")
      case None
      then show ?thesis using run False cb e by (auto simp: walkChain_def Let_def)
    next
      case (Some data)
      note data = Some
      show ?thesis
      proof (cases "unmarshalCBOR lib data")
        case None
        then show ?thesis using run False cb e data by (auto simp: walkChain_def Let_def)
      next
        case (Some b)
        note b = Some
        define h where "h = (if Height b <s currentMinHeight st then Height b else currentMinHeight st)"
        obtain wlk rm where wm: "walkMessages fuel cs lib ts incl so b (walked st) = (wlk, rm)"
          by (cases "walkMessages fuel cs lib ts incl so b (walked st)")
        show ?thesis
        proof (cases rm)
          case (Inl err)
          then show ?thesis using run False cb e data b wm by (auto simp: walkChain_def Let_def)
        next
          case (Inr mcids)
          note mcids = Inr
          obtain toWalk cids where wp: "walkParents b (blocksToWalk st, mcids) = (toWalk, cids)"
            by (cases "walkParents b (blocksToWalk st, mcids)")
          obtain wlk' rs where ws: "walkStateRoots fuel cs lib ts incl sr b wlk cids = (wlk', rs)"
            by (cases "walkStateRoots fuel cs lib ts incl sr b wlk cids")
          show ?thesis
          proof (cases rs)
            case (Inl err)
            then show ?thesis using run False cb e data b wm mcids wp ws by (auto simp: walkChain_def Let_def)
          next
            case (Inr out)
            obtain sn w r' where em: "emitOut cb out (insert blk (seen st), w1) = ((sn, w), r')"
              by (cases "emitOut cb out (insert blk (seen st), w1)") auto
            have "seen st' = sn \<and> cbState st' = w \<and> r = r'"
              using run False cb e data b wm mcids wp ws Inr em by (auto simp: walkChain_def Let_def)
            then show ?thesis using False cb e em by auto
          qed
        qed
      qed
    qed
  qed
qed


lemma walkLoop_invariant:
  assumes "I st"
    and step: "\<And>st blk rest st' r. I st \<Longrightarrow> blocksToWalk st = blk # rest \<Longrightarrow>
        walkChain depth cs lib ts incl so sr cb blk (st\<lparr>blocksToWalk := rest\<rparr>) = (st', r) \<Longrightarrow> I st'"
  shows "I (fst (walkLoop n depth cs lib ts incl so sr cb st))"
  using assms(1)
proof (induction n arbitrary: st)
  case 0
  then show ?case by (cases "blocksToWalk st") simp_all
next
  case (Suc n)
  show ?case
  proof (cases "blocksToWalk st")
    case Nil
    then show ?thesis using Suc.prems by simp
  next
    case (Cons blk rest)
    obtain st' r where wc: "walkChain depth cs lib ts incl so sr cb blk (st\<lparr>blocksToWalk := rest\<rparr>) = (st', r)"
      by (cases "walkChain depth cs lib ts incl so sr cb blk (st\<lparr>blocksToWalk := rest\<rparr>)")
    have I': "I st'" using step[OF Suc.prems Cons wc] .
    show ?thesis
    proof (cases r)
      case None
      then show ?thesis using Cons wc Suc.IH[OF I'] by simp
    next
      case (Some e)
      then show ?thesis using Cons wc I' by simp
    qed
  qed
qed

lemma walkChain_traceInv:
  assumes inv: "traceInv st" and run: "walkChain fuel cs lib ts incl so sr (recording cb) blk st = (st', r)"
  shows "traceInv st'"
proof -
  obtain tr w where cbs: "cbState st = (tr, w)" by (cases "cbState st")
  obtain tr' w' where cbs': "cbState st' = (tr', w')" by (cases "cbState st'")
  from walkChain_shape[OF run] show ?thesis
  proof (elim disjE conjE exE)
    assume "st' = st"
    then show ?thesis using inv by simp
  next
    fix w1 e
    assume a: "blk \<notin> seen st" "recording cb blk (cbState st) = (w1, e)"
      "seen st' = insert blk (seen st)" "cbState st' = w1"
    then have "fst w1 = tr @ [blk]" using cbs by (cases "cb blk w") (auto simp: recording_apply)
    then show ?thesis using a inv cbs by (auto simp: traceInv_def)
  next
    fix w1 e out
    assume a: "blk \<notin> seen st" "recording cb blk (cbState st) = (w1, e)"
      "emitOut (recording cb) out (insert blk (seen st), w1) = ((seen st', cbState st'), r)"
    then have w1: "fst w1 = tr @ [blk]" using cbs by (cases "cb blk w") (auto simp: recording_apply)
    have "distinct (tr @ [blk])" "set (tr @ [blk]) \<subseteq> insert blk (seen st)"
      using a(1) inv cbs by (auto simp: traceInv_def)
    moreover have "emitOut (recording cb) out (insert blk (seen st), (tr @ [blk], snd w1)) = ((seen st', (tr', w')), r)"
      using a(3) w1 cbs' by (cases w1) simp
    ultimately have "distinct tr' \<and> set tr' \<subseteq> seen st'"
      by (rule emitOut_recording_inv[rotated -1, rotated -1])
    then show ?thesis using cbs' by (simp add: traceInv_def)
  qed
qed

subsection \<open>Recording changes nothing\<close>

lemma emitOut_recording_plain:
  "emitOut cb out (sn, w) =
     (case emitOut (recording cb) out (sn, (tr, w)) of ((sn', (tr', w')), r) \<Rightarrow> ((sn', w'), r))"
proof (induction out arbitrary: sn tr w)
  case Nil
  show ?case by simp
next
  case (Cons c out)
  obtain w1 e where cb: "cb c w = (w1, e)" by (cases "cb c w")
  show ?case
    using Cons.IH[of sn w tr] Cons.IH[of "insert c sn" w tr] Cons.IH[of "insert c sn" w1 "tr @ [c]"] cb
    by (cases e) (simp_all add: recording_apply)
qed

lemma walkChain_recording_plain:
  "walkChain fuel cs lib ts incl so sr cb blk (unrecorded st) =
     (unrecorded (fst (walkChain fuel cs lib ts incl so sr (recording cb) blk st)),
      snd (walkChain fuel cs lib ts incl so sr (recording cb) blk st))"
proof (cases "blk \<in> seen st")
  case True
  then show ?thesis by (simp add: walkChain_def unrecorded_def)
next
  case False
  obtain tr w where cbs: "cbState st = (tr, w)" by (cases "cbState st")
  obtain w1 e where cb: "cb blk w = (w1, e)" by (cases "cb blk w")
  have rcb: "recording cb blk (cbState st) = ((tr @ [blk], w1), e)"
    using cbs cb by (simp add: recording_apply)
  show ?thesis
  proof (cases e)
    case (Some err)
    then show ?thesis using False cbs cb rcb by (simp add: walkChain_def unrecorded_def)
  next
    case None
    note e = None
    show ?thesis
    proof (cases "chainGet cs blk")
      case None
      then show ?thesis using False cbs cb rcb e by (simp add: walkChain_def unrecorded_def)
    next
      case (Some data)
      note data = Some
      show ?thesis
      proof (cases "unmarshalCBOR lib data")
        case None
        then show ?thesis using False cbs cb rcb e data by (simp add: walkChain_def unrecorded_def)
      next
        case (Some b)
        note b = Some
        obtain wlk rm where wm: "walkMessages fuel cs lib ts incl so b (walked st) = (wlk, rm)"
          by (cases "walkMessages fuel cs lib ts incl so b (walked st)")
        show ?thesis
        proof (cases rm)
          case (Inl err)
          then show ?thesis using False cbs cb rcb e data b wm
            by (simp add: walkChain_def unrecorded_def Let_def)
        next
          case (Inr mcids)
          note mcids = Inr
          obtain toWalk cids where wp: "walkParents b (blocksToWalk st, mcids) = (toWalk, cids)"
            by (cases "walkParents b (blocksToWalk st, mcids)")
          obtain wlk' rs where ws: "walkStateRoots fuel cs lib ts incl sr b wlk cids = (wlk', rs)"
            by (cases "walkStateRoots fuel cs lib ts incl sr b wlk cids")
          show ?thesis
          proof (cases rs)
            case (Inl err)
            then show ?thesis using False cbs cb rcb e data b wm mcids wp ws
              by (simp add: walkChain_def unrecorded_def Let_def)
          next
            case (Inr out)
            obtain sn tr' w' r where em:
              "emitOut (recording cb) out (insert blk (seen st), (tr @ [blk], w1)) = ((sn, (tr', w')), r)"
              by (cases "emitOut (recording cb) out (insert blk (seen st), (tr @ [blk], w1))") auto
            have em': "emitOut cb out (insert blk (seen st), w1) = ((sn, w'), r)"
              using emitOut_recording_plain[of cb out "insert blk (seen st)" w1 "tr @ [blk]"] em by simp
            show ?thesis using False cbs cb rcb e data b wm mcids wp ws Inr em em'
              by (simp add: walkChain_def unrecorded_def Let_def)
          qed
        qed
      qed
    qed
  qed
qed

lemma walkLoop_recording_plain:
  "walkLoop n depth cs lib ts incl so sr cb (unrecorded st) =
     (unrecorded (fst (walkLoop n depth cs lib ts incl so sr (recording cb) st)),
      snd (walkLoop n depth cs lib ts incl so sr (recording cb) st))"
proof (induction n arbitrary: st)
  case 0
  show ?case by (cases "blocksToWalk st") (simp_all add: unrecorded_def)
next
  case (Suc n)
  show ?case
  proof (cases "blocksToWalk st")
    case Nil
    then show ?thesis by (simp add: unrecorded_def)
  next
    case (Cons blk rest)
    obtain st1 r where wc: "walkChain depth cs lib ts incl so sr (recording cb) blk (st\<lparr>blocksToWalk := rest\<rparr>) = (st1, r)"
      by (cases "walkChain depth cs lib ts incl so sr (recording cb) blk (st\<lparr>blocksToWalk := rest\<rparr>)")
    have u: "(unrecorded st)\<lparr>blocksToWalk := rest\<rparr> = unrecorded (st\<lparr>blocksToWalk := rest\<rparr>)"
      by (simp add: unrecorded_def)
    have plain: "walkChain depth cs lib ts incl so sr cb blk ((unrecorded st)\<lparr>blocksToWalk := rest\<rparr>) =
        (unrecorded st1, r)"
      unfolding u using walkChain_recording_plain[of depth cs lib ts incl so sr cb blk "st\<lparr>blocksToWalk := rest\<rparr>"] wc
      by simp
    have b: "blocksToWalk (unrecorded st) = blk # rest" using Cons by (simp add: unrecorded_def)
    show ?thesis
      using Cons b wc plain Suc.IH[of st1] by (cases r) simp_all
  qed
qed

lemma WalkSnapshot_recording_plain:
  "WalkSnapshot fuel cs lib tso incl so sr cb w0 =
     (snd (fst (WalkSnapshot fuel cs lib tso incl so sr (recording cb) ([], w0))),
      snd (WalkSnapshot fuel cs lib tso incl so sr (recording cb) ([], w0)))"
proof -
  define ts where "ts = (case tso of None \<Rightarrow> heaviestTipSet cs | Some t \<Rightarrow> t)"
  define st0 where
    "st0 = \<lparr>seen = {}, walked = {}, blocksToWalk = Cids ts, currentMinHeight = TsHeight ts,
            cbState = ([] :: cid list, w0)\<rparr>"
  have u: "unrecorded st0 = \<lparr>seen = {}, walked = {}, blocksToWalk = Cids ts,
      currentMinHeight = TsHeight ts, cbState = w0\<rparr>"
    by (simp add: unrecorded_def st0_def)
  obtain stf rf where loop: "walkLoop fuel fuel cs lib ts incl so sr (recording cb) st0 = (stf, rf)"
    by (cases "walkLoop fuel fuel cs lib ts incl so sr (recording cb) st0")
  have "walkLoop fuel fuel cs lib ts incl so sr cb (unrecorded st0) = (unrecorded stf, rf)"
    using walkLoop_recording_plain[of fuel fuel cs lib ts incl so sr cb st0] loop by simp
  then show ?thesis
    using loop unfolding u
    by (simp add: WalkSnapshot_def ts_def[symmetric] st0_def[symmetric] unrecorded_def)
qed

subsection \<open>recurseLinks\<close>

lemma scanCallback_failed:
  "scanCallback n bs lib cs (wlk, acc, Some e) = (wlk, acc, Some e)"
  by (induction cs) simp_all

lemma scanCallback_preorder:
  assumes rec: "\<And>wlk root inp. recurseLinks n bs lib wlk root (inp @ [root]) =
      (case preorder n bs lib wlk root of
         (w, Inl e) \<Rightarrow> (w, Inl e) | (w, Inr ys) \<Rightarrow> (w, Inr (inp @ ys)))"
  shows "scanCallback n bs lib cs (wlk, acc, None) =
      (case preorderChildren n bs lib wlk cs of
         (w, Inl e) \<Rightarrow> (w, [], Some e) | (w, Inr ys) \<Rightarrow> (w, acc @ ys, None))"
proof (induction cs arbitrary: wlk acc)
  case Nil
  show ?case by simp
next
  case (Cons c cs)
  show ?case
  proof (cases "c \<in> wlk")
    case True
    then show ?thesis using Cons.IH by simp
  next
    case False
    obtain w1 r1 where p: "preorder n bs lib (insert c wlk) c = (w1, r1)"
      by (cases "preorder n bs lib (insert c wlk) c")
    show ?thesis
    proof (cases r1)
      case (Inl e)
      then show ?thesis using False p rec[of "insert c wlk" c acc]
        by (simp add: scanCallback_failed)
    next
      case (Inr ys)
      obtain w2 r2 where q: "preorderChildren n bs lib w1 cs = (w2, r2)"
        by (cases "preorderChildren n bs lib w1 cs")
      show ?thesis using False p Inr q rec[of "insert c wlk" c acc] Cons.IH[of w1 "acc @ ys"]
        by (cases r2) simp_all
    qed
  qed
qed

lemma recurseLinks_preorder:
  "recurseLinks n bs lib wlk root (inp @ [root]) =
      (case preorder n bs lib wlk root of
         (w, Inl e) \<Rightarrow> (w, Inl e) | (w, Inr ys) \<Rightarrow> (w, Inr (inp @ ys)))"
proof (induction n arbitrary: wlk root inp)
  case 0
  show ?case by simp
next
  case (Suc n)
  show ?case
  proof (cases "Codec root \<noteq> DagCBOR")
    case True
    then show ?thesis by simp
  next
    case False
    note dagcbor = False
    show ?thesis
    proof (cases "bs root")
      case None
      then show ?thesis using dagcbor by simp
    next
      case (Some data)
      obtain w r where q: "preorderChildren n bs lib wlk (fst (scanForLinks lib data)) = (w, r)"
        by (cases "preorderChildren n bs lib wlk (fst (scanForLinks lib data))")
      have sc: "scanCallback n bs lib (fst (scanForLinks lib data)) (wlk, inp @ [root], None) =
          (case r of Inl e \<Rightarrow> (w, [], Some e) | Inr ys \<Rightarrow> (w, (inp @ [root]) @ ys, None))"
        using scanCallback_preorder[of n bs lib, OF Suc.IH] q by (cases r) simp_all
      show ?thesis using dagcbor Some q sc by (cases r) simp_all
    qed
  qed
qed

lemma scanCallback_walked_mono:
  assumes rec: "\<And>wlk root inp. wlk \<subseteq> fst (recurseLinks n bs lib wlk root inp)"
  shows "wlk \<subseteq> fst (scanCallback n bs lib cs (wlk, acc, rerr))"
proof (induction cs arbitrary: wlk acc rerr)
  case Nil
  show ?case by simp
next
  case (Cons c cs)
  show ?case
  proof (cases "rerr \<noteq> None \<or> c \<in> wlk")
    case True
    then show ?thesis using Cons.IH[of wlk acc rerr] by auto
  next
    case False
    obtain w1 r1 where p: "recurseLinks n bs lib (insert c wlk) c (acc @ [c]) = (w1, r1)"
      by (cases "recurseLinks n bs lib (insert c wlk) c (acc @ [c])")
    have "insert c wlk \<subseteq> w1" using rec[of "insert c wlk" c "acc @ [c]"] p by simp
    moreover have "w1 \<subseteq> fst (scanCallback n bs lib (c # cs) (wlk, acc, rerr))"
      using False p Cons.IH[of w1] by (cases r1) simp_all
    ultimately show ?thesis by blast
  qed
qed

lemma recurseLinks_walked_mono:
  "wlk \<subseteq> fst (recurseLinks n bs lib wlk root inp)"
proof (induction n arbitrary: wlk root inp)
  case 0
  show ?case by simp
next
  case (Suc n)
  show ?case
  proof (cases "Codec root \<noteq> DagCBOR")
    case True
    then show ?thesis by simp
  next
    case False
    show ?thesis
    proof (cases "bs root")
      case None
      then show ?thesis using False by simp
    next
      case (Some data)
      obtain w a e where sc: "scanCallback n bs lib (fst (scanForLinks lib data)) (wlk, inp, None) = (w, a, e)"
        by (cases "scanCallback n bs lib (fst (scanForLinks lib data)) (wlk, inp, None)")
      have "wlk \<subseteq> w"
        using scanCallback_walked_mono[of n bs lib wlk "fst (scanForLinks lib data)" inp None, OF Suc.IH] sc
        by simp
      then show ?thesis using False Some sc by (cases e) simp_all
    qed
  qed
qed


lemma scanCallback_cong:
  assumes rec: "\<And>wlk root inp. recurseLinks n bs lib wlk root inp = recurseLinks n bs' lib wlk root inp"
  shows "scanCallback n bs lib cs st = scanCallback n bs' lib cs st"
proof (induction cs arbitrary: st)
  case Nil
  show ?case by simp
next
  case (Cons c cs)
  obtain wlk acc rerr where st: "st = (wlk, acc, rerr)" by (cases st)
  show ?case unfolding st
    using Cons.IH rec by (simp split: prod.splits sum.splits)
qed

lemma recurseLinks_fetches_DagCBOR_only:
  assumes same: "\<forall>c. Codec c = DagCBOR \<longrightarrow> bs c = bs' c"
  shows "recurseLinks n bs lib wlk root inp = recurseLinks n bs' lib wlk root inp"
proof (induction n arbitrary: wlk root inp)
  case 0
  show ?case by simp
next
  case (Suc n)
  have sc: "scanCallback n bs lib cs st = scanCallback n bs' lib cs st" for cs st
    by (rule scanCallback_cong) (rule Suc.IH)
  show ?case
  proof (cases "Codec root = DagCBOR")
    case False
    then show ?thesis by simp
  next
    case True
    then have "bs root = bs' root" using same by blast
    then show ?thesis using True by (simp add: sc split: option.splits)
  qed
qed

subsection \<open>The steps of walkChain\<close>

lemma walkStateRoots_extends:
  "walkStateRoots fuel cs lib ts incl sr b wlk cids = (wlk', Inr out) \<Longrightarrow> \<exists>rest. out = cids @ rest"
  by (auto simp: walkStateRoots_def split: if_splits prod.splits sum.splits)

lemma walkChain_header:
  assumes "blk \<notin> seen st" "cb blk (cbState st) = (w1, None)" "chainGet cs blk = Some data"
    "unmarshalCBOR lib data = Some b"
    "walkMessages fuel cs lib ts incl so b (walked st) = (wlk, Inr mcids)"
    "walkParents b (blocksToWalk st, mcids) = (toWalk, cids)"
  shows "walkChain fuel cs lib ts incl so sr cb blk st =
     (case walkStateRoots fuel cs lib ts incl sr b wlk cids of
        (wlk', Inl e) \<Rightarrow>
          (st\<lparr>seen := insert blk (seen st), cbState := w1,
              currentMinHeight := (if Height b <s currentMinHeight st then Height b
                                   else currentMinHeight st),
              walked := wlk', blocksToWalk := toWalk\<rparr>, Some e)
      | (wlk', Inr out) \<Rightarrow>
          (case emitOut cb out (insert blk (seen st), w1) of
             ((sn, w), r) \<Rightarrow>
               (st\<lparr>seen := sn, cbState := w,
                   currentMinHeight := (if Height b <s currentMinHeight st then Height b
                                        else currentMinHeight st),
                   walked := wlk', blocksToWalk := toWalk\<rparr>, r)))"
proof -
  obtain wlk' rs where ws: "walkStateRoots fuel cs lib ts incl sr b wlk cids = (wlk', rs)"
    by (cases "walkStateRoots fuel cs lib ts incl sr b wlk cids")
  show ?thesis
  proof (cases rs)
    case (Inl e)
    then show ?thesis using assms ws by (simp add: walkChain_def Let_def)
  next
    case (Inr out)
    obtain sn w r where em: "emitOut cb out (insert blk (seen st), w1) = ((sn, w), r)"
      by (cases "emitOut cb out (insert blk (seen st), w1)") auto
    show ?thesis using assms ws Inr em by (simp add: walkChain_def Let_def)
  qed
qed

lemma walkChain_blocksToWalk:
  assumes "blk \<notin> seen st" "cb blk (cbState st) = (w1, None)" "chainGet cs blk = Some data"
    "unmarshalCBOR lib data = Some b"
    "walkMessages fuel cs lib ts incl so b (walked st) = (wlk, Inr mcids)"
  shows "blocksToWalk (fst (walkChain fuel cs lib ts incl so sr cb blk st)) =
           (if 0 <s Height b then blocksToWalk st @ Parents b else blocksToWalk st)"
proof -
  define toWalk where "toWalk = (if 0 <s Height b then blocksToWalk st @ Parents b else blocksToWalk st)"
  define cids where "cids = (if 0 <s Height b then mcids else mcids @ Parents b)"
  have wp: "walkParents b (blocksToWalk st, mcids) = (toWalk, cids)"
    by (simp add: walkParents_def toWalk_def cids_def)
  note unfold = walkChain_header[where cb = cb and sr = sr, OF assms wp]
  obtain wlk' rs where ws: "walkStateRoots fuel cs lib ts incl sr b wlk cids = (wlk', rs)"
    by (cases "walkStateRoots fuel cs lib ts incl sr b wlk cids")
  have "blocksToWalk (fst (walkChain fuel cs lib ts incl so sr cb blk st)) = toWalk"
    using unfold ws by (cases rs) (simp_all split: prod.splits)
  then show ?thesis by (simp add: toWalk_def)
qed

subsection \<open>The filter and the frontier\<close>

lemma walkedBlockId_mono:
  "walkedBlockId cs lib ts tr c \<Longrightarrow> set tr \<subseteq> set tr' \<Longrightarrow> walkedBlockId cs lib ts tr' c"
  by (auto simp: walkedBlockId_def)

lemma emitOut_recording_pass:
  "emitOut (recording cb) out (sn, (tr, w)) = ((sn', (tr', w')), r) \<Longrightarrow>
   \<exists>more. tr' = tr @ more \<and> (\<forall>c \<in> set more. passesFilter c)"
proof (induction out arbitrary: sn tr w)
  case Nil
  then show ?case by simp
next
  case (Cons c out)
  consider (skip) "c \<in> sn" | (drop) "c \<notin> sn" "\<not> passesFilter c" | (call) "c \<notin> sn" "passesFilter c"
    by blast
  then show ?case
  proof cases
    case skip
    with Cons.prems have "emitOut (recording cb) out (sn, (tr, w)) = ((sn', (tr', w')), r)"
      by simp
    then show ?thesis by (rule Cons.IH)
  next
    case drop
    with Cons.prems have "emitOut (recording cb) out (insert c sn, (tr, w)) = ((sn', (tr', w')), r)"
      by (auto simp: passesFilter_def split: if_splits)
    then show ?thesis by (rule Cons.IH)
  next
    case call
    obtain w1 e where cb: "cb c w = (w1, e)" by (cases "cb c w")
    show ?thesis
    proof (cases e)
      case None
      with call cb Cons.prems
      have "emitOut (recording cb) out (insert c sn, (tr @ [c], w1)) = ((sn', (tr', w')), r)"
        by (auto simp: recording_apply passesFilter_def split: if_splits)
      then obtain more where "tr' = (tr @ [c]) @ more" "\<forall>c \<in> set more. passesFilter c"
        using Cons.IH by blast
      then have "tr' = tr @ (c # more) \<and> (\<forall>x \<in> set (c # more). passesFilter x)"
        using call(2) by simp
      then show ?thesis by blast
    next
      case (Some err)
      with call cb Cons.prems have "tr' = tr @ [c]"
        by (auto simp: recording_apply passesFilter_def split: if_splits)
      then show ?thesis using call(2) by auto
    qed
  qed
qed

lemma walkChain_frontier:
  assumes run: "walkChain fuel cs lib ts incl so sr cb blk st = (st', r)"
  shows "blocksToWalk st' = blocksToWalk st \<or>
    (blk \<notin> seen st \<and> (\<exists>b. headerAt cs lib blk = Some b \<and> 0 <s Height b \<and>
        blocksToWalk st' = blocksToWalk st @ Parents b))"
proof (cases "blk \<in> seen st")
  case True
  then show ?thesis using run by (simp add: walkChain_def)
next
  case False
  obtain w1 e where cb: "cb blk (cbState st) = (w1, e)" by (cases "cb blk (cbState st)")
  show ?thesis
  proof (cases e)
    case (Some err)
    then show ?thesis using run False cb by (auto simp: walkChain_def Let_def)
  next
    case None
    note e = None
    show ?thesis
    proof (cases "chainGet cs blk")
      case None
      then show ?thesis using run False cb e by (auto simp: walkChain_def Let_def)
    next
      case (Some data)
      note data = Some
      show ?thesis
      proof (cases "unmarshalCBOR lib data")
        case None
        then show ?thesis using run False cb e data by (auto simp: walkChain_def Let_def)
      next
        case (Some b)
        note b = Some
        have hdr: "headerAt cs lib blk = Some b" using data b by (simp add: headerAt_def)
        obtain wlk rm where wm: "walkMessages fuel cs lib ts incl so b (walked st) = (wlk, rm)"
          by (cases "walkMessages fuel cs lib ts incl so b (walked st)")
        show ?thesis
        proof (cases rm)
          case (Inl err)
          then show ?thesis using run False cb e data b wm by (auto simp: walkChain_def Let_def)
        next
          case (Inr mcids)
          have "blocksToWalk (fst (walkChain fuel cs lib ts incl so sr cb blk st)) =
             (if 0 <s Height b then blocksToWalk st @ Parents b else blocksToWalk st)"
            using walkChain_blocksToWalk[where cb = cb and sr = sr, OF False cb[unfolded e] data b wm[unfolded Inr]] .
          then show ?thesis using run False hdr by auto
        qed
      qed
    qed
  qed
qed

lemma walkChain_filterInv:
  assumes inv: "filterInv cs lib ts st" and blk: "walkedBlockId cs lib ts (fst (cbState st)) blk"
    and run: "walkChain fuel cs lib ts incl so sr (recording cb) blk st = (st', r)"
  shows "filterInv cs lib ts st'"
proof -
  obtain tr w where cbs: "cbState st = (tr, w)" by (cases "cbState st")
  obtain tr' w' where cbs': "cbState st' = (tr', w')" by (cases "cbState st'")
  have grow: "st' = st \<or> (blk \<notin> seen st \<and> (\<exists>more. tr' = tr @ blk # more \<and> (\<forall>c \<in> set more. passesFilter c)))"
    using walkChain_shape[OF run]
  proof (elim disjE conjE exE)
    assume "st' = st"
    then show ?thesis by simp
  next
    fix w1 e
    assume a: "blk \<notin> seen st" "recording cb blk (cbState st) = (w1, e)" "cbState st' = w1"
    then have "tr' = tr @ [blk]" using cbs cbs' by (cases "cb blk w") (auto simp: recording_apply)
    then show ?thesis using a(1) by simp
  next
    fix w1 e out
    assume a: "blk \<notin> seen st" "recording cb blk (cbState st) = (w1, e)"
      "emitOut (recording cb) out (insert blk (seen st), w1) = ((seen st', cbState st'), r)"
    then have w1: "fst w1 = tr @ [blk]" using cbs by (cases "cb blk w") (auto simp: recording_apply)
    have "emitOut (recording cb) out (insert blk (seen st), (tr @ [blk], snd w1)) = ((seen st', (tr', w')), r)"
      using a(3) w1 cbs' by (cases w1) simp
    from emitOut_recording_pass[OF this]
    obtain more where "tr' = (tr @ [blk]) @ more" "\<forall>c \<in> set more. passesFilter c"
      by blast
    then show ?thesis using a(1) by simp
  qed
  show ?thesis
  proof (cases "st' = st")
    case True
    then show ?thesis using inv by simp
  next
    case False
    then obtain more where more: "blk \<notin> seen st" "tr' = tr @ blk # more" "\<forall>c \<in> set more. passesFilter c"
      using grow by blast
    have sub: "set tr \<subseteq> set tr'" using more(2) by auto
    have old: "walkedBlockId cs lib ts tr' c" if "walkedBlockId cs lib ts tr c" for c
      using that sub by (rule walkedBlockId_mono)
    have emitted_ok: "passesFilter c \<or> walkedBlockId cs lib ts tr' c" if "c \<in> set tr'" for c
    proof -
      from that more(2) consider "c \<in> set tr" | "c = blk" | "c \<in> set more" by auto
      then show ?thesis
      proof cases
        case 1
        then have "passesFilter c \<or> walkedBlockId cs lib ts tr c"
          using inv cbs by (simp add: filterInv_def)
        then show ?thesis using old by blast
      next
        case 2
        then show ?thesis using blk cbs old by simp
      next
        case 3
        then show ?thesis using more(3) by blast
      qed
    qed
    have kept: "walkedBlockId cs lib ts tr' c" if "c \<in> set (blocksToWalk st)" for c
    proof -
      have "walkedBlockId cs lib ts tr c" using that inv cbs by (simp add: filterInv_def)
      then show ?thesis by (rule old)
    qed
    have front: "walkedBlockId cs lib ts tr' c" if c: "c \<in> set (blocksToWalk st')" for c
      using walkChain_frontier[OF run]
    proof
      assume "blocksToWalk st' = blocksToWalk st"
      then show ?thesis using c kept by simp
    next
      assume "blk \<notin> seen st \<and> (\<exists>b. headerAt cs lib blk = Some b \<and> 0 <s Height b \<and>
        blocksToWalk st' = blocksToWalk st @ Parents b)"
      then obtain b where b: "headerAt cs lib blk = Some b" "0 <s Height b"
        "blocksToWalk st' = blocksToWalk st @ Parents b" by blast
      from c b(3) consider "c \<in> set (blocksToWalk st)" | "c \<in> set (Parents b)" by auto
      then show ?thesis
      proof cases
        case 1
        then show ?thesis by (rule kept)
      next
        case 2
        have "blk \<in> set tr'" using more(2) by simp
        moreover have "(case headerAt cs lib blk of None \<Rightarrow> False
            | Some b \<Rightarrow> 0 <s Height b \<and> c \<in> set (Parents b))"
          using b(1,2) 2 by simp
        ultimately show ?thesis unfolding walkedBlockId_def by blast
      qed
    qed
    show ?thesis using emitted_ok front cbs' by (simp add: filterInv_def)
  qed
qed

subsection \<open>A walk that returns nil\<close>

lemma emitOut_success:
  assumes view: "\<forall>c w w'. cb c w = (w', None) \<longrightarrow> V w' = insert c (V w)"
  shows "emitOut cb out (sn, w) = ((sn', w'), None) \<Longrightarrow>
    \<forall>c \<in> sn. passesFilter c \<longrightarrow> c \<in> V w \<Longrightarrow>
    (\<forall>c \<in> sn'. passesFilter c \<longrightarrow> c \<in> V w') \<and> sn \<subseteq> sn'"
proof (induction out arbitrary: sn w)
  case Nil
  then show ?case by simp
next
  case (Cons c out)
  consider (skip) "c \<in> sn" | (drop) "c \<notin> sn" "\<not> passesFilter c" | (call) "c \<notin> sn" "passesFilter c"
    by blast
  then show ?case
  proof cases
    case skip
    with Cons.prems(1) have "emitOut cb out (sn, w) = ((sn', w'), None)" by simp
    then show ?thesis using Cons.IH Cons.prems(2) by blast
  next
    case drop
    with Cons.prems(1) have "emitOut cb out (insert c sn, w) = ((sn', w'), None)"
      by (auto simp: passesFilter_def split: if_splits)
    moreover have "\<forall>x \<in> insert c sn. passesFilter x \<longrightarrow> x \<in> V w"
      using Cons.prems(2) drop(2) by blast
    ultimately have "(\<forall>c \<in> sn'. passesFilter c \<longrightarrow> c \<in> V w') \<and> insert c sn \<subseteq> sn'"
      by (rule Cons.IH)
    then show ?thesis by blast
  next
    case call
    obtain w1 e where cb: "cb c w = (w1, e)" by (cases "cb c w")
    have e: "e = None"
      using call cb Cons.prems(1) by (cases e) (auto simp: passesFilter_def split: if_splits)
    have run: "emitOut cb out (insert c sn, w1) = ((sn', w'), None)"
      using call cb e Cons.prems(1) by (auto simp: passesFilter_def split: if_splits)
    have "V w1 = insert c (V w)" using view cb e by blast
    then have "\<forall>x \<in> insert c sn. passesFilter x \<longrightarrow> x \<in> V w1"
      using Cons.prems(2) by blast
    with run have "(\<forall>c \<in> sn'. passesFilter c \<longrightarrow> c \<in> V w') \<and> insert c sn \<subseteq> sn'"
      by (rule Cons.IH)
    then show ?thesis by blast
  qed
qed

lemma walkChain_success:
  assumes view: "\<forall>c w w'. cb c w = (w', None) \<longrightarrow> V w' = insert c (V w)"
    and run: "walkChain fuel cs lib ts incl so sr cb blk st = (st', None)"
    and inv: "\<forall>c \<in> seen st. passesFilter c \<longrightarrow> c \<in> V (cbState st)"
  shows "(\<forall>c \<in> seen st'. passesFilter c \<longrightarrow> c \<in> V (cbState st')) \<and> seen st \<subseteq> seen st'
    \<and> blk \<in> seen st' \<and> set (blocksToWalk st) \<subseteq> set (blocksToWalk st')"
proof -
  have front: "set (blocksToWalk st) \<subseteq> set (blocksToWalk st')"
    using walkChain_frontier[OF run] by auto
  have "(\<forall>c \<in> seen st'. passesFilter c \<longrightarrow> c \<in> V (cbState st')) \<and> seen st \<subseteq> seen st' \<and> blk \<in> seen st'"
    using walkChain_shape[OF run]
  proof (elim disjE conjE exE)
    assume "blk \<in> seen st" "st' = st"
    then show ?thesis using inv by simp
  next
    assume "None \<noteq> (None :: error option)"
    then show ?thesis by simp
  next
    fix w1 e out
    assume a: "blk \<notin> seen st" "cb blk (cbState st) = (w1, e)" "e = None"
      "emitOut cb out (insert blk (seen st), w1) = ((seen st', cbState st'), None)"
    have "V w1 = insert blk (V (cbState st))" using view a(2,3) by blast
    then have "\<forall>c \<in> insert blk (seen st). passesFilter c \<longrightarrow> c \<in> V w1"
      using inv by blast
    then have "(\<forall>c \<in> seen st'. passesFilter c \<longrightarrow> c \<in> V (cbState st')) \<and>
        insert blk (seen st) \<subseteq> seen st'"
      using emitOut_success[OF view a(4)] by blast
    then show ?thesis by blast
  qed
  then show ?thesis using front by blast
qed

lemma walkLoop_success:
  assumes view: "\<forall>c w w'. cb c w = (w', None) \<longrightarrow> V w' = insert c (V w)"
  shows "walkLoop n depth cs lib ts incl so sr cb st = (st', None) \<Longrightarrow>
    \<forall>c \<in> seen st. passesFilter c \<longrightarrow> c \<in> V (cbState st) \<Longrightarrow>
    S \<subseteq> seen st \<union> set (blocksToWalk st) \<Longrightarrow>
    (\<forall>c \<in> seen st'. passesFilter c \<longrightarrow> c \<in> V (cbState st')) \<and> S \<subseteq> seen st'"
proof (induction n arbitrary: st)
  case 0
  then show ?case by (cases "blocksToWalk st") auto
next
  case (Suc n)
  show ?case
  proof (cases "blocksToWalk st")
    case Nil
    then show ?thesis using Suc.prems by auto
  next
    case (Cons blk rest)
    obtain st1 r where wc: "walkChain depth cs lib ts incl so sr cb blk (st\<lparr>blocksToWalk := rest\<rparr>) = (st1, r)"
      by (cases "walkChain depth cs lib ts incl so sr cb blk (st\<lparr>blocksToWalk := rest\<rparr>)")
    have r: "r = None" using Suc.prems(1) Cons wc by (cases r) simp_all
    have loop: "walkLoop n depth cs lib ts incl so sr cb st1 = (st', None)"
      using Suc.prems(1) Cons wc r by simp
    have inv': "\<forall>c \<in> seen (st\<lparr>blocksToWalk := rest\<rparr>).
        passesFilter c \<longrightarrow> c \<in> V (cbState (st\<lparr>blocksToWalk := rest\<rparr>))"
      using Suc.prems(2) by simp
    have step: "(\<forall>c \<in> seen st1. passesFilter c \<longrightarrow> c \<in> V (cbState st1)) \<and>
        seen (st\<lparr>blocksToWalk := rest\<rparr>) \<subseteq> seen st1 \<and> blk \<in> seen st1 \<and>
        set (blocksToWalk (st\<lparr>blocksToWalk := rest\<rparr>)) \<subseteq> set (blocksToWalk st1)"
      using walkChain_success[OF view wc[unfolded r] inv'] .
    then have "S \<subseteq> seen st1 \<union> set (blocksToWalk st1)"
      using Suc.prems(3) Cons by auto
    with loop step show ?thesis using Suc.IH by blast
  qed
qed

subsection \<open>A call that returns nil\<close>

lemma emitOut_recording_sets:
  "emitOut (recording cb) out (sn, (tr, w)) = ((sn', (tr', w')), None) \<Longrightarrow>
   sn' = sn \<union> set out \<and> set tr' = set tr \<union> {c \<in> set out. c \<notin> sn \<and> passesFilter c}"
proof (induction out arbitrary: sn tr w)
  case Nil
  then show ?case by simp
next
  case (Cons c out)
  consider (skip) "c \<in> sn" | (drop) "c \<notin> sn" "\<not> passesFilter c" | (call) "c \<notin> sn" "passesFilter c"
    by blast
  then show ?case
  proof cases
    case skip
    with Cons.prems have "emitOut (recording cb) out (sn, (tr, w)) = ((sn', (tr', w')), None)"
      by simp
    from Cons.IH[OF this] show ?thesis using skip by auto
  next
    case drop
    with Cons.prems have "emitOut (recording cb) out (insert c sn, (tr, w)) = ((sn', (tr', w')), None)"
      by (auto simp: passesFilter_def split: if_splits)
    from Cons.IH[OF this] show ?thesis using drop by auto
  next
    case call
    obtain w1 e where cb: "cb c w = (w1, e)" by (cases "cb c w")
    have e: "e = None"
      using call cb Cons.prems by (cases e) (auto simp: recording_apply passesFilter_def split: if_splits)
    have "emitOut (recording cb) out (insert c sn, (tr @ [c], w1)) = ((sn', (tr', w')), None)"
      using call cb e Cons.prems by (auto simp: recording_apply passesFilter_def split: if_splits)
    from Cons.IH[OF this] show ?thesis using call by auto
  qed
qed

lemma walkLoop_empties:
  "walkLoop n depth cs lib ts incl so sr cb st = (st', None) \<Longrightarrow> blocksToWalk st' = []"
proof (induction n arbitrary: st)
  case 0
  then show ?case by (cases "blocksToWalk st") auto
next
  case (Suc n)
  show ?case
  proof (cases "blocksToWalk st")
    case Nil
    then show ?thesis using Suc.prems by auto
  next
    case (Cons blk rest)
    obtain st1 r where wc: "walkChain depth cs lib ts incl so sr cb blk (st\<lparr>blocksToWalk := rest\<rparr>) = (st1, r)"
      by (cases "walkChain depth cs lib ts incl so sr cb blk (st\<lparr>blocksToWalk := rest\<rparr>)")
    have "r = None" using Suc.prems Cons wc by (cases r) simp_all
    then have "walkLoop n depth cs lib ts incl so sr cb st1 = (st', None)"
      using Suc.prems Cons wc by simp
    then show ?thesis by (rule Suc.IH)
  qed
qed

lemma walkChain_returns_nil:
  assumes "blk \<notin> seen st" "cb blk (cbState st) = (w1, None)" "chainGet cs blk = Some data"
    "unmarshalCBOR lib data = Some b"
    "walkMessages fuel cs lib ts incl so b (walked st) = (wlk, Inr mcids)"
    and run: "walkChain fuel cs lib ts incl so sr cb blk st = (st1, None)"
  shows "\<exists>rest. walkStateRoots fuel cs lib ts incl sr b wlk
             (if 0 <s Height b then mcids else mcids @ Parents b) =
               (walked st1, Inr ((if 0 <s Height b then mcids else mcids @ Parents b) @ rest)) \<and>
           emitOut cb ((if 0 <s Height b then mcids else mcids @ Parents b) @ rest)
             (insert blk (seen st), w1) = ((seen st1, cbState st1), None)"
proof -
  define toWalk where "toWalk = (if 0 <s Height b then blocksToWalk st @ Parents b else blocksToWalk st)"
  define cids where "cids = (if 0 <s Height b then mcids else mcids @ Parents b)"
  have wp: "walkParents b (blocksToWalk st, mcids) = (toWalk, cids)"
    by (simp add: walkParents_def toWalk_def cids_def)
  note unfold = walkChain_header[where cb = cb and sr = sr, OF assms(1-5) wp]
  obtain wlk' rs where ws: "walkStateRoots fuel cs lib ts incl sr b wlk cids = (wlk', rs)"
    by (cases "walkStateRoots fuel cs lib ts incl sr b wlk cids")
  show ?thesis
  proof (cases rs)
    case (Inl e)
    then show ?thesis using unfold ws run by simp
  next
    case (Inr out)
    obtain sn w r where em: "emitOut cb out (insert blk (seen st), w1) = ((sn, w), r)"
      by (cases "emitOut cb out (insert blk (seen st), w1)") auto
    have st1: "walked st1 = wlk'" "seen st1 = sn" "cbState st1 = w" "r = None"
      using unfold ws Inr em run by auto
    obtain rest where "out = cids @ rest"
      using walkStateRoots_extends ws Inr by blast
    then show ?thesis using ws Inr em st1 unfolding cids_def by auto
  qed
qed

lemma preorder_listed:
  "preorder n bs lib wlk root = (wlk', Inr ys) \<Longrightarrow>
     (\<exists>t. ys = root # t) \<and> wlk \<subseteq> wlk' \<and> set ys \<subseteq> insert root wlk'"
  "preorderChildren n bs lib wlk cs = (wlk', Inr ys) \<Longrightarrow> wlk \<subseteq> wlk' \<and> set ys \<subseteq> wlk'"
proof (induction n bs lib wlk root and n bs lib wlk cs arbitrary: wlk' ys and wlk' ys
    rule: preorder_preorderChildren.induct)
  case (1 bs lib wlk root)
  then show ?case by simp
next
  case (2 n bs lib wlk root)
  show ?case
  proof (cases "Codec root \<noteq> DagCBOR")
    case True
    then show ?thesis using 2(2) by auto
  next
    case False
    then obtain data where data: "bs root = Some data"
      using 2(2) by (cases "bs root") auto
    obtain w r where q: "preorderChildren n bs lib wlk (fst (scanForLinks lib data)) = (w, r)"
      by (cases "preorderChildren n bs lib wlk (fst (scanForLinks lib data))")
    have ok: "\<not> snd (scanForLinks lib data)" using 2(2) False data q by (auto split: if_splits)
    then obtain zs where r: "r = Inr zs" "ys = root # zs" "wlk' = w"
      using 2(2) False data q by (cases r) auto
    have "wlk \<subseteq> w \<and> set zs \<subseteq> w" using 2(1)[OF False data] q r(1) by simp
    then show ?thesis using r by auto
  qed
next
  case (3 n bs lib wlk)
  then show ?case by simp
next
  case (4 n bs lib wlk c cs)
  show ?case
  proof (cases "c \<in> wlk")
    case True
    then show ?thesis using 4(1)[OF True] 4(4) by simp
  next
    case False
    obtain w1 r1 where p: "preorder n bs lib (insert c wlk) c = (w1, r1)"
      by (cases "preorder n bs lib (insert c wlk) c")
    then obtain ys1 where r1: "r1 = Inr ys1" using 4(4) False by (cases r1) auto
    obtain w2 r2 where q: "preorderChildren n bs lib w1 cs = (w2, r2)"
      by (cases "preorderChildren n bs lib w1 cs")
    then obtain zs where r2: "r2 = Inr zs" "ys = ys1 @ zs" "wlk' = w2"
      using 4(4) False p r1 by (cases r2) auto
    have a: "insert c wlk \<subseteq> w1 \<and> set ys1 \<subseteq> insert c w1"
      using 4(2)[OF False] p r1 by simp
    have b: "w1 \<subseteq> w2 \<and> set zs \<subseteq> w2"
      using 4(3)[OF False] p r1 q r2(1) by simp
    show ?thesis using a b r2 by auto
  qed
qed

section \<open>Properties of Export and Import\<close>

subsection \<open>The slots of the channel\<close>

lemma importInv_start: "importInv wfail load (importStart cs r)"
  by (auto simp: importInv_def importStart_def split: list.splits frame.splits)

lemma PutMany_error: "PutMany wfail cs b = (cs', Some e) \<Longrightarrow> wfail b = Some e"
  by (auto simp: PutMany_def split: option.splits)

lemma importInv_main:
  assumes "importInv wfail load st"
  shows "importInv wfail load (mainStep intact wfail load st)"
proof (cases "pc st")
  case Reading
  show ?thesis
  proof (cases "input st")
    case Nil
    show ?thesis
    proof (cases "buf st = []")
      case True
      then show ?thesis using assms Reading Nil by (simp add: mainStep_def importInv_def)
    next
      case False
      obtain cs' r where pm: "PutMany wfail (node st) (buf st) = (cs', r)"
        by (cases "PutMany wfail (node st) (buf st)")
      show ?thesis
      proof (cases r)
        case None
        then show ?thesis using assms Reading Nil False pm by (simp add: mainStep_def importInv_def)
      next
        case (Some e)
        then have "wfail (buf st) = Some e" using pm PutMany_error by blast
        then show ?thesis using assms Reading Nil False pm Some
          by (auto simp: mainStep_def importInv_def)
      qed
    qed
  next
    case (Cons f rest)
    show ?thesis
    proof (cases f)
      case (Header rs v)
      then show ?thesis using assms Reading Cons by (auto simp: mainStep_def importInv_def)
    next
      case (Block c data)
      show ?thesis
      proof (cases "intact c data")
        case False
        then show ?thesis using assms Reading Cons Block by (auto simp: mainStep_def importInv_def)
      next
        case True
        note whole = True
        show ?thesis
        proof (cases "1000 < length (buf st @ [(c, data)])")
          case False
          then show ?thesis using assms Reading Cons Block whole
            by (auto simp: mainStep_def importInv_def)
        next
          case True
          show ?thesis
          proof (cases "putThrottle st")
            case Nil
            then show ?thesis using assms Reading Cons Block True whole by (simp add: mainStep_def)
          next
            case (Cons x ch)
            note chan = Cons
            show ?thesis
            proof (cases x)
              case None
              then show ?thesis using assms Reading \<open>input st = f # rest\<close> Block True chan whole
                by (auto simp: mainStep_def importInv_def)
            next
              case (Some e)
              then show ?thesis using assms Reading \<open>input st = f # rest\<close> Block True chan whole
                by (auto simp: mainStep_def importInv_def)
            qed
          qed
        qed
      qed
    qed
  qed
next
  case (Draining i)
  show ?thesis
  proof (cases "i < parallelPuts")
    case False
    moreover have "length (putThrottle st) + length (running st) + i = parallelPuts"
      using assms Draining by (simp add: importInv_def)
    ultimately have "length (putThrottle st) = 0 \<and> length (running st) = 0"
      by linarith
    then have "putThrottle st = [] \<and> running st = []" by simp
    then show ?thesis using assms Draining False
      by (cases "load (node st) (roots st)") (auto simp: mainStep_def importInv_def)
  next
    case True
    show ?thesis
    proof (cases "putThrottle st")
      case Nil
      then show ?thesis using assms Draining True by (simp add: mainStep_def)
    next
      case (Cons x ch)
      show ?thesis
      proof (cases x)
        case None
        then show ?thesis using assms Draining True Cons by (auto simp: mainStep_def importInv_def)
      next
        case (Some e)
        then show ?thesis using assms Draining True Cons by (auto simp: mainStep_def importInv_def)
      qed
    qed
  qed
next
  case (Returned r)
  then show ?thesis using assms by (simp add: mainStep_def)
qed

lemma importInv_worker:
  assumes "importInv wfail load st"
  shows "importInv wfail load (workerStep wfail i st)"
proof (cases "i < length (running st)")
  case False
  then show ?thesis using assms by (simp add: workerStep_def)
next
  case True
  obtain cs' r where pm: "PutMany wfail (node st) (running st ! i) = (cs', r)"
    by (cases "PutMany wfail (node st) (running st ! i)")
  have r: "\<forall>e. r = Some e \<longrightarrow> (\<exists>b. wfail b = Some e)" using pm PutMany_error by blast
  have len: "length (take i (running st) @ drop (Suc i) (running st)) + 1 = length (running st)"
    using True by simp
  have ws: "workerStep wfail i st = st\<lparr>running := take i (running st) @ drop (Suc i) (running st),
                putThrottle := putThrottle st @ [r], node := cs'\<rparr>"
    using True pm by (simp add: workerStep_def)
  show ?thesis
  proof (cases "pc st")
    case Reading
    then show ?thesis using assms r len unfolding ws by (auto simp: importInv_def)
  next
    case (Draining k)
    then show ?thesis using assms r len unfolding ws by (auto simp: importInv_def)
  next
    case (Returned res)
    show ?thesis
    proof (cases res)
      case (Inl e)
      then show ?thesis using assms r len Returned unfolding ws by (auto simp: importInv_def)
    next
      case (Inr t)
      then show ?thesis using assms True Returned by (simp add: importInv_def)
    qed
  qed
qed

lemma importInv_run:
  "importInv wfail load st \<Longrightarrow> importInv wfail load (foldl (importStep intact wfail load) st sched)"
proof (induction sched arbitrary: st)
  case Nil
  then show ?case by simp
next
  case (Cons ev sched)
  have "importInv wfail load (importStep intact wfail load st ev)"
    using Cons.prems importInv_main importInv_worker by (cases ev) (simp_all add: importStep_def)
  then show ?case using Cons.IH by simp
qed

subsection \<open>Reading whole batches\<close>




subsection \<open>What Export writes\<close>

lemma emitOut_cb_invariant:
  assumes keep: "\<forall>c w w' r. P w \<longrightarrow> cb c w = (w', r) \<longrightarrow> P w'"
  shows "P w \<Longrightarrow> P (snd (fst (emitOut cb out (sn, w))))"
proof (induction out arbitrary: sn w)
  case Nil
  then show ?case by simp
next
  case (Cons c out)
  obtain w1 e where cb: "cb c w = (w1, e)" by (cases "cb c w")
  have w1: "P w1" using keep Cons.prems cb by blast
  show ?case
    using Cons.IH[OF Cons.prems] Cons.IH[OF w1] cb w1
    by (cases e) simp_all
qed

lemma walkChain_cb_invariant:
  assumes keep: "\<forall>c w w' r. P w \<longrightarrow> cb c w = (w', r) \<longrightarrow> P w'"
    and start: "P (cbState st)"
    and run: "walkChain fuel cs lib ts incl so sr cb blk st = (st', r)"
  shows "P (cbState st')"
  using walkChain_shape[OF run]
proof (elim disjE conjE exE)
  assume "st' = st"
  then show ?thesis using start by simp
next
  fix w1 e
  assume "cb blk (cbState st) = (w1, e)" "cbState st' = w1"
  then show ?thesis using keep start by blast
next
  fix w1 e out
  assume a: "cb blk (cbState st) = (w1, e)"
    "emitOut cb out (insert blk (seen st), w1) = ((seen st', cbState st'), r)"
  have "P w1" using keep start a(1) by blast
  then have "P (snd (fst (emitOut cb out (insert blk (seen st), w1))))"
    using emitOut_cb_invariant[OF keep] by blast
  then show ?thesis using a(2) by simp
qed

lemma WalkSnapshot_cb_invariant:
  assumes keep: "\<forall>c w w' r. P w \<longrightarrow> cb c w = (w', r) \<longrightarrow> P w'"
    and start: "P w0"
  shows "P (fst (WalkSnapshot fuel cs lib tso incl so sr cb w0))"
proof -
  define ts where "ts = (case tso of None \<Rightarrow> heaviestTipSet cs | Some t \<Rightarrow> t)"
  define st0 where "st0 = \<lparr>seen = {}, walked = {}, blocksToWalk = Cids ts, currentMinHeight = TsHeight ts,
              cbState = w0\<rparr>"
  have "P (cbState st0)" using start by (simp add: st0_def)
  then have "P (cbState (fst (walkLoop fuel fuel cs lib ts incl so sr cb st0)))"
  proof (rule walkLoop_invariant[where I = "\<lambda>st. P (cbState st)"])
    fix st :: "'a walkState" and blk rest st' r
    assume "P (cbState st)" "walkChain fuel cs lib ts incl so sr cb blk (st\<lparr>blocksToWalk := rest\<rparr>) = (st', r)"
    then show "P (cbState st')"
      using walkChain_cb_invariant[OF keep, of "st\<lparr>blocksToWalk := rest\<rparr>"] by simp
  qed
  moreover obtain stf rf where "walkLoop fuel fuel cs lib ts incl so sr cb st0 = (stf, rf)"
    by (cases "walkLoop fuel fuel cs lib ts incl so sr cb st0")
  ultimately show ?thesis
    by (simp add: WalkSnapshot_def ts_def[symmetric] st0_def[symmetric])
qed

lemma exportCb_bufWrite:
  "exportCb bufWrite cs c w = (w', r) \<Longrightarrow>
     (r = None \<and> (\<exists>data. UnionStore cs c = Some data \<and> w' = w @ [Block c data])) \<or>
     (r = Some (GetFailed c) \<and> UnionStore cs c = None \<and> w' = w)"
  by (auto simp: exportCb_def bufWrite_def split: option.splits)

lemma Export_stream:
  assumes ex: "Export fuel cs lib ts incl so bufWrite [] = (stream, None)"
    and ids: "\<forall>c \<in> set (Cids ts). passesFilter c"
  shows "\<exists>recs. stream = Header (Cids ts) 1 # map toFrame recs \<and>
      (\<forall>p \<in> set recs. UnionStore cs (fst p) = Some (snd p)) \<and>
      set (Cids ts) \<subseteq> fst ` set recs"
proof -
  define P where "P = (\<lambda>w. \<exists>recs. w = Header (Cids ts) 1 # map toFrame recs \<and>
      (\<forall>p \<in> set recs. UnionStore cs (fst p) = Some (snd p)))"
  define w1 :: "'a frame list" where "w1 = [Header (Cids ts) 1]"
  have walk: "WalkSnapshot fuel cs lib (Some ts) incl so True (exportCb bufWrite cs) w1 = (stream, None)"
    using ex by (simp add: Export_def bufWrite_def w1_def)
  have keep: "\<forall>c w w' r. P w \<longrightarrow> exportCb bufWrite cs c w = (w', r) \<longrightarrow> P w'"
  proof (intro allI impI)
    fix c w w' r
    assume "P w" and cb: "exportCb bufWrite cs c w = (w', r)"
    then obtain recs where recs: "w = Header (Cids ts) 1 # map toFrame recs"
      "\<forall>p \<in> set recs. UnionStore cs (fst p) = Some (snd p)"
      unfolding P_def by blast
    from exportCb_bufWrite[OF cb] show "P w'"
    proof (elim disjE conjE exE)
      fix data
      assume "UnionStore cs c = Some data" "w' = w @ [Block c data]"
      then have "w' = Header (Cids ts) 1 # map toFrame (recs @ [(c, data)]) \<and>
          (\<forall>p \<in> set (recs @ [(c, data)]). UnionStore cs (fst p) = Some (snd p))"
        using recs by (simp add: toFrame_def)
      then show ?thesis unfolding P_def by blast
    next
      assume "w' = w"
      then show ?thesis using \<open>P w\<close> by simp
    qed
  qed
  have "P w1" unfolding P_def w1_def by (rule exI[of _ "[]"]) simp
  then have "P (fst (WalkSnapshot fuel cs lib (Some ts) incl so True (exportCb bufWrite cs) w1))"
    by (rule WalkSnapshot_cb_invariant[OF keep])
  then obtain recs where recs: "stream = Header (Cids ts) 1 # map toFrame recs"
      "\<forall>p \<in> set recs. UnionStore cs (fst p) = Some (snd p)"
    using walk unfolding P_def by auto
  have view: "\<forall>c w w'. exportCb bufWrite cs c w = (w', None) \<longrightarrow> blockIds w' = insert c (blockIds w)"
  proof (intro allI impI)
    fix c w w'
    assume "exportCb bufWrite cs c w = (w', None)"
    from exportCb_bufWrite[OF this] obtain data where "w' = w @ [Block c data]" by auto
    then show "blockIds w' = insert c (blockIds w)" by (auto simp: blockIds_def)
  qed
  define st0 where "st0 = \<lparr>seen = {}, walked = {}, blocksToWalk = Cids ts, currentMinHeight = TsHeight ts,
              cbState = w1\<rparr>"
  obtain stf rf where loop: "walkLoop fuel fuel cs lib ts incl so True (exportCb bufWrite cs) st0 = (stf, rf)"
    by (cases "walkLoop fuel fuel cs lib ts incl so True (exportCb bufWrite cs) st0")
  have fin: "cbState stf = stream" "rf = None"
    using walk loop by (simp_all add: WalkSnapshot_def st0_def)
  have "(\<forall>c \<in> seen stf. passesFilter c \<longrightarrow> c \<in> blockIds (cbState stf)) \<and> set (Cids ts) \<subseteq> seen stf"
    by (rule walkLoop_success[OF view loop[unfolded fin(2)]]) (simp_all add: st0_def)
  then have "set (Cids ts) \<subseteq> blockIds stream" using ids fin(1) by auto
  then have "set (Cids ts) \<subseteq> fst ` set recs"
    unfolding recs(1) blockIds_def by (auto simp: toFrame_def image_iff)
  then show ?thesis using recs by blast
qed

subsection \<open>What Import stores\<close>

lemma foldl_put:
  "\<forall>p \<in> set blks. f (fst p) = Some (snd p) \<Longrightarrow>
   foldl (\<lambda>m (c, data). m(c \<mapsto> data)) m blks c = (if c \<in> fst ` set blks then f c else m c)"
proof (induction blks arbitrary: m)
  case Nil
  show ?case by simp
next
  case (Cons p blks)
  obtain c' d' where p: "p = (c', d')" by (cases p)
  have "f c' = Some d'" using Cons.prems p by simp
  then show ?case using Cons.IH[of "m(c' \<mapsto> d')"] Cons.prems p by auto
qed

lemma PutMany_ok:
  assumes "\<forall>p \<in> set blks. f (fst p) = Some (snd p)"
  shows "\<exists>cs'. PutMany (\<lambda>b. None) cs blks = (cs', None) \<and>
     chainBlockstore cs' = chainBlockstore cs \<and> stateBlockstore cs' = stateBlockstore cs \<and>
     (\<forall>c. stateGet cs' c = (if c \<in> fst ` set blks then f c else stateGet cs c))"
  using foldl_put[OF assms] by (simp add: PutMany_def stateGet_def)

lemma roundInv_main:
  assumes tok: "importInv (\<lambda>b. None) load st" and inv: "roundInv f K load rs st"
    and hashed: "\<forall>c data. f c = Some data \<longrightarrow> intact c data"
  shows "roundInv f K load rs (mainStep intact (\<lambda>b. None) load st)"
proof (cases "pc st")
  case Reading
  show ?thesis
  proof (cases "input st")
    case Nil
    show ?thesis
    proof (cases "buf st = []")
      case True
      then show ?thesis using inv Reading Nil by (simp add: mainStep_def roundInv_def)
    next
      case False
      have "\<forall>p \<in> set (buf st). f (fst p) = Some (snd p)" using inv by (simp add: roundInv_def)
      from PutMany_ok[OF this, of "node st"] obtain cs' where
        pm: "PutMany (\<lambda>b. None) (node st) (buf st) = (cs', None)"
        "chainBlockstore cs' = chainBlockstore (node st)" "stateBlockstore cs' = stateBlockstore (node st)"
        "\<forall>c. stateGet cs' c = (if c \<in> fst ` set (buf st) then f c else stateGet (node st) c)"
        by blast
      have ms: "mainStep intact (\<lambda>b. None) load st = st\<lparr>pc := Draining 0, node := cs'\<rparr>"
        using Reading Nil False pm(1) by (simp add: mainStep_def)
      show ?thesis unfolding ms using inv Reading Nil pm(2,3,4) by (auto simp: roundInv_def)
    qed
  next
    case (Cons fr rest)
    then obtain c data where fr: "fr = Block c data" "f c = Some data"
      using inv by (auto simp: roundInv_def)
    then have whole: "intact c data" using hashed by blast
    show ?thesis
    proof (cases "1000 < length (buf st @ [(c, data)])")
      case False
      then have ms: "mainStep intact (\<lambda>b. None) load st = st\<lparr>input := rest, buf := buf st @ [(c, data)]\<rparr>"
        using Reading Cons fr whole by (simp add: mainStep_def)
      show ?thesis unfolding ms using inv Reading Cons fr by (force simp: roundInv_def)
    next
      case True
      show ?thesis
      proof (cases "putThrottle st")
        case Nil
        then show ?thesis using inv Reading Cons fr True whole by (simp add: mainStep_def)
      next
        case (Cons x ch)
        then have x: "x = None" using inv by (simp add: roundInv_def)
        have ms: "mainStep intact (\<lambda>b. None) load st = st\<lparr>input := rest, buf := [], putThrottle := ch,
                        running := running st @ [buf st @ [(c, data)]]\<rparr>"
          using Reading \<open>input st = fr # rest\<close> fr True Cons x whole by (simp add: mainStep_def)
        show ?thesis unfolding ms using inv Reading \<open>input st = fr # rest\<close> fr Cons
          by (force simp: roundInv_def)
      qed
    qed
  qed
next
  case (Draining i)
  show ?thesis
  proof (cases "i < parallelPuts")
    case False
    moreover have "length (putThrottle st) + length (running st) + i = parallelPuts"
      using tok Draining by (simp add: importInv_def)
    ultimately have "length (running st) = 0" by linarith
    then have "running st = []" by simp
    then have full: "\<forall>c \<in> K. stateGet (node st) c = f c"
      using inv Draining by (simp add: roundInv_def)
    have ms: "mainStep intact (\<lambda>b. None) load st = st\<lparr>pc := Returned (load (node st) (roots st))\<rparr>"
      using Draining False by (simp add: mainStep_def)
    show ?thesis unfolding ms using inv Draining full by (auto simp: roundInv_def)
  next
    case True
    show ?thesis
    proof (cases "putThrottle st")
      case Nil
      then show ?thesis using inv Draining True by (simp add: mainStep_def)
    next
      case (Cons x ch)
      then have x: "x = None" using inv by (simp add: roundInv_def)
      have ms: "mainStep intact (\<lambda>b. None) load st = st\<lparr>pc := Draining (Suc i), putThrottle := ch\<rparr>"
        using Draining True Cons x by (simp add: mainStep_def)
      show ?thesis unfolding ms using inv Draining Cons by (auto simp: roundInv_def)
    qed
  qed
next
  case (Returned r)
  then show ?thesis using inv by (simp add: mainStep_def)
qed

lemma set_without_nth:
  assumes "i < length xs"
  shows "set xs = insert (xs ! i) (set (take i xs @ drop (Suc i) xs))"
proof -
  have "xs = take i xs @ xs ! i # drop (Suc i) xs" using assms by (rule id_take_nth_drop)
  then have "set xs = set (take i xs @ xs ! i # drop (Suc i) xs)" by simp
  then show ?thesis by simp
qed

lemma roundInv_worker:
  assumes inv: "roundInv f K load rs st"
  shows "roundInv f K load rs (workerStep (\<lambda>b. None) i st)"
proof (cases "i < length (running st)")
  case False
  then show ?thesis using inv by (simp add: workerStep_def)
next
  case True
  define b where "b = running st ! i"
  define others where "others = take i (running st) @ drop (Suc i) (running st)"
  have split: "set (running st) = insert b (set others)"
    unfolding b_def others_def using True by (rule set_without_nth)
  have "\<forall>p \<in> set b. f (fst p) = Some (snd p)"
    using inv split by (simp add: roundInv_def)
  from PutMany_ok[OF this, of "node st"] obtain cs' where
    pm: "PutMany (\<lambda>b. None) (node st) b = (cs', None)"
    "chainBlockstore cs' = chainBlockstore (node st)" "stateBlockstore cs' = stateBlockstore (node st)"
    "\<forall>c. stateGet cs' c = (if c \<in> fst ` set b then f c else stateGet (node st) c)"
    by blast
  have ws: "workerStep (\<lambda>b. None) i st =
      st\<lparr>running := others, putThrottle := putThrottle st @ [None], node := cs'\<rparr>"
    using True pm(1) by (simp add: workerStep_def b_def others_def)
  show ?thesis
  proof (cases "pc st")
    case Reading
    then show ?thesis unfolding ws using inv split pm(2,3,4) by (auto simp: roundInv_def)
  next
    case (Draining k)
    then show ?thesis unfolding ws using inv split pm(2,3,4) by (auto simp: roundInv_def)
  next
    case (Returned r)
    then show ?thesis unfolding ws using inv split pm(2,3) by (auto simp: roundInv_def)
  qed
qed

lemma roundInv_run:
  "\<forall>c data. f c = Some data \<longrightarrow> intact c data \<Longrightarrow>
   importInv (\<lambda>b. None) load st \<Longrightarrow> roundInv f K load rs st \<Longrightarrow>
   roundInv f K load rs (foldl (importStep intact (\<lambda>b. None) load) st sched)"
proof (induction sched arbitrary: st)
  case Nil
  then show ?case by simp
next
  case (Cons ev sched)
  have tok: "importInv (\<lambda>b. None) load (importStep intact (\<lambda>b. None) load st ev)"
    using Cons.prems(2) importInv_main importInv_worker by (cases ev) (simp_all add: importStep_def)
  have "roundInv f K load rs (importStep intact (\<lambda>b. None) load st ev)"
    using roundInv_main[OF Cons.prems(2,3,1)] roundInv_worker[OF Cons.prems(3)]
    by (cases ev) (simp_all add: importStep_def)
  then show ?case using Cons.IH[OF Cons.prems(1) tok] by simp
qed

subsection \<open>Every schedule comes to an end\<close>

lemma disabled_waits:
  "\<not> enabled intact st ev \<Longrightarrow> importStep intact wfail load st ev = st"
proof (cases ev)
  case (Worker i)
  assume "\<not> enabled intact st ev"
  then show ?thesis using Worker by (simp add: enabled_def importStep_def workerStep_def)
next
  case Main
  assume off: "\<not> enabled intact st ev"
  show ?thesis
  proof (cases "pc st")
    case (Returned r)
    then show ?thesis using Main by (simp add: importStep_def mainStep_def)
  next
    case (Draining i)
    then show ?thesis using Main off by (simp add: enabled_def importStep_def mainStep_def)
  next
    case Reading
    then obtain c data rest where "input st = Block c data # rest" "intact c data"
      "1000 < length (buf st @ [(c, data)])" "putThrottle st = []"
      using Main off by (auto simp: enabled_def split: list.splits frame.splits)
    then show ?thesis using Main Reading by (simp add: importStep_def mainStep_def)
  qed
qed

lemma worker_moves:
  assumes "i < length (running st)"
  shows "movesLeft (workerStep wfail i st) < movesLeft st"
proof -
  obtain cs' r where pm: "PutMany wfail (node st) (running st ! i) = (cs', r)"
    by (cases "PutMany wfail (node st) (running st ! i)")
  have less: "length (take i (running st) @ drop (Suc i) (running st)) < length (running st)"
    using assms by simp
  have ws: "workerStep wfail i st = st\<lparr>running := take i (running st) @ drop (Suc i) (running st),
                putThrottle := putThrottle st @ [r], node := cs'\<rparr>"
    using assms pm by (simp add: workerStep_def)
  show ?thesis unfolding ws movesLeft_def using less by (cases "pc st") simp_all
qed

lemma main_moves:
  assumes on: "enabled intact st Main"
  shows "movesLeft (mainStep intact wfail load st) < movesLeft st"
proof (cases "pc st")
  case (Returned r)
  then show ?thesis using on by (simp add: enabled_def)
next
  case (Draining i)
  show ?thesis
  proof (cases "i < parallelPuts")
    case False
    then show ?thesis using Draining by (simp add: mainStep_def movesLeft_def)
  next
    case True
    then obtain x ch where ch: "putThrottle st = x # ch"
      using on Draining by (cases "putThrottle st") (simp_all add: enabled_def)
    show ?thesis using Draining True ch by (cases x) (simp_all add: mainStep_def movesLeft_def)
  qed
next
  case Reading
  show ?thesis
  proof (cases "input st")
    case Nil
    obtain cs' r where pm: "PutMany wfail (node st) (buf st) = (cs', r)"
      by (cases "PutMany wfail (node st) (buf st)")
    show ?thesis using Reading Nil pm by (cases r) (simp_all add: mainStep_def movesLeft_def)
  next
    case (Cons fr rest)
    show ?thesis
    proof (cases fr)
      case (Header rs v)
      then show ?thesis using Reading Cons by (simp add: mainStep_def movesLeft_def)
    next
      case (Block c data)
      show ?thesis
      proof (cases "intact c data \<and> 1000 < length (buf st @ [(c, data)])")
        case False
        then show ?thesis using Reading Cons Block by (auto simp: mainStep_def movesLeft_def)
      next
        case True
        then obtain x ch where ch: "putThrottle st = x # ch"
          using on Reading Cons Block by (cases "putThrottle st") (simp_all add: enabled_def)
        show ?thesis using Reading Cons Block True ch
          by (cases x) (simp_all add: mainStep_def movesLeft_def)
      qed
    qed
  qed
qed

lemma enabled_moves:
  "enabled intact st ev \<Longrightarrow> movesLeft (importStep intact wfail load st ev) < movesLeft st"
proof (cases ev)
  case Main
  assume "enabled intact st ev"
  then show ?thesis using Main main_moves[of intact st wfail load] by (simp add: importStep_def)
next
  case (Worker i)
  assume "enabled intact st ev"
  then have "i < length (running st)" using Worker by (simp add: enabled_def)
  then show ?thesis using Worker worker_moves[of i st wfail] by (simp add: importStep_def)
qed

lemma steps_bound:
  "stepsTaken intact wfail load st sched + movesLeft (foldl (importStep intact wfail load) st sched)
     \<le> movesLeft st"
proof (induction sched arbitrary: st)
  case Nil
  show ?case by simp
next
  case (Cons ev sched)
  show ?case
  proof (cases "enabled intact st ev")
    case True
    then have "movesLeft (importStep intact wfail load st ev) < movesLeft st"
      by (rule enabled_moves)
    then show ?thesis using Cons.IH[of "importStep intact wfail load st ev"] True by simp
  next
    case False
    then have "importStep intact wfail load st ev = st" by (rule disabled_waits)
    then show ?thesis using Cons.IH[of st] False by simp
  qed
qed

lemma no_deadlock:
  assumes inv: "importInv wfail load st"
  shows "(\<exists>r. pc st = Returned r) \<or> (\<exists>ev. enabled intact st ev)"
proof (cases "enabled intact st Main")
  case True
  then show ?thesis by blast
next
  case False
  show ?thesis
  proof (cases "pc st")
    case (Returned r)
    then show ?thesis by blast
  next
    case (Draining i)
    then have "i < parallelPuts" "putThrottle st = []"
      using False by (simp_all add: enabled_def)
    moreover have "length (putThrottle st) + length (running st) + i = parallelPuts"
      using inv Draining by (simp add: importInv_def)
    ultimately have "running st \<noteq> []" by auto
    then have "enabled intact st (Worker 0)" by (simp add: enabled_def)
    then show ?thesis by blast
  next
    case Reading
    then have "putThrottle st = []"
      using False by (auto simp: enabled_def split: list.splits frame.splits)
    moreover have "length (putThrottle st) + length (running st) = parallelPuts"
      using inv Reading by (simp add: importInv_def)
    ultimately have "length (running st) = parallelPuts" by simp
    then have "0 < length (running st)" by (simp add: parallelPuts_def)
    then have "enabled intact st (Worker 0)" by (simp add: enabled_def)
    then show ?thesis by blast
  qed
qed

lemma returns_eventually:
  "importInv wfail load st \<Longrightarrow>
   \<exists>sched r. pc (foldl (importStep intact wfail load) st sched) = Returned r"
proof (induction "movesLeft st" arbitrary: st rule: less_induct)
  case less
  from no_deadlock[OF less.prems, of intact] show ?case
  proof
    assume "\<exists>r. pc st = Returned r"
    then obtain r where "pc (foldl (importStep intact wfail load) st []) = Returned r" by auto
    then show ?thesis by blast
  next
    assume "\<exists>ev. enabled intact st ev"
    then obtain ev where ev: "enabled intact st ev" by blast
    define st1 where "st1 = importStep intact wfail load st ev"
    have "movesLeft st1 < movesLeft st" unfolding st1_def using ev by (rule enabled_moves)
    moreover have "importInv wfail load st1"
      unfolding st1_def using less.prems importInv_main importInv_worker
      by (cases ev) (simp_all add: importStep_def)
    ultimately obtain sched r where "pc (foldl (importStep intact wfail load) st1 sched) = Returned r"
      using less.hyps by blast
    then have "pc (foldl (importStep intact wfail load) st (ev # sched)) = Returned r"
      by (simp add: st1_def)
    then show ?thesis by blast
  qed
qed

lemma LoadTipSet_reads:
  assumes "\<forall>c \<in> set key. chainGet a c = chainGet b c"
  shows "LoadTipSet lib a key = LoadTipSet lib b key"
proof -
  have eq: "map (headerAt a lib) key = map (headerAt b lib) key"
    using assms by (simp add: headerAt_def)
  show ?thesis unfolding LoadTipSet_def eq ..
qed

text \<open>
  Claim C2. In every walk, whatever the stores hold, whatever the parameters and the
  callback are and wherever the walk stops, no identifier is passed to the callback
  twice: every call, for a block header (line 135) as for an identifier of \<^verbatim>\<open>out\<close>
  (line 210), follows a successful \<^verbatim>\<open>seen.Visit\<close>. The sequence \<open>emitted\<close> is the one a
  recording callback collects, and recording changes nothing: the walk with the
  recording callback ends with the same callback state and returns the same error as
  the walk without.
\<close>

theorem WalkSnapshot_no_duplicates:
  "distinct (emitted fuel cs lib tso incl so sr cb w0) \<and>
   WalkSnapshot fuel cs lib tso incl so sr cb w0 =
     (snd (fst (WalkSnapshot fuel cs lib tso incl so sr (recording cb) ([], w0))),
      snd (WalkSnapshot fuel cs lib tso incl so sr (recording cb) ([], w0)))"
proof -
  define ts where "ts = (case tso of None \<Rightarrow> heaviestTipSet cs | Some t \<Rightarrow> t)"
  define st0 where
    "st0 = \<lparr>seen = {}, walked = {}, blocksToWalk = Cids ts, currentMinHeight = TsHeight ts,
            cbState = ([] :: cid list, w0)\<rparr>"
  have "traceInv st0" by (simp add: traceInv_def st0_def)
  then have "traceInv (fst (walkLoop fuel fuel cs lib ts incl so sr (recording cb) st0))"
  proof (rule walkLoop_invariant)
    fix st :: "(cid list \<times> 'b) walkState" and blk rest st' r
    assume "traceInv st"
      "walkChain fuel cs lib ts incl so sr (recording cb) blk (st\<lparr>blocksToWalk := rest\<rparr>) = (st', r)"
    moreover have "traceInv (st\<lparr>blocksToWalk := rest\<rparr>)"
      using \<open>traceInv st\<close> by (simp add: traceInv_def)
    ultimately show "traceInv st'" using walkChain_traceInv by blast
  qed
  moreover obtain stf rf where
    "walkLoop fuel fuel cs lib ts incl so sr (recording cb) st0 = (stf, rf)"
    by (cases "walkLoop fuel fuel cs lib ts incl so sr (recording cb) st0")
  ultimately have "distinct (emitted fuel cs lib tso incl so sr cb w0)"
    by (simp add: emitted_def WalkSnapshot_def ts_def[symmetric] st0_def[symmetric] traceInv_def)
  then show ?thesis using WalkSnapshot_recording_plain[of fuel cs lib tso incl so sr cb w0] by blast
qed

text \<open>
  The example walk with a window of two epochs: both upper blocks are expanded, the
  shared leaf and the shared state node are emitted once.
\<close>

theorem WalkSnapshot_no_duplicates_witness:
  "emitted 10 exStore exLib None 2 True False okCb () =
     [dag 2, dag 12, rawc 100, dag 101, rawc 102, dag 22, dag 23, rawc 24, dag 32,
      dag 1, dag 11, dag 21, dag 31, dag 0, rawc 40, dag 20, dag 30]
   \<and> distinct (emitted 10 exStore exLib None 2 True False okCb ())"
proof -
  have "emitted 10 exStore exLib None 2 True False okCb () =
     [dag 2, dag 12, rawc 100, dag 101, rawc 102, dag 22, dag 23, rawc 24, dag 32,
      dag 1, dag 11, dag 21, dag 31, dag 0, rawc 40, dag 20, dag 30]"
    by code_simp
  moreover have "distinct (emitted 10 exStore exLib None 2 True False okCb ())"
    using WalkSnapshot_no_duplicates[of 10 exStore exLib None 2 True False okCb "()"] by blast
  ultimately show ?thesis by (rule conjI)
qed

text \<open>
  Claim C8. An identifier whose codec is not \<open>DagCBOR\<close> (a raw one in particular) is
  returned as a leaf: the result is the input list, whatever the blockstore is. The
  blockstore is consulted at \<open>DagCBOR\<close> identifiers only: two blockstores that agree on
  those give the same result. And the output is the pre-order of the specification:
  called with a list that ends in the root, \<open>recurseLinks\<close> appends to the list before the
  root exactly what \<open>preorder\<close> lists (root first, then each child's full expansion in
  scan order), and returns the same walked set and the same error.
\<close>

theorem recurseLinks_leaves_and_preorder:
  "(Codec root \<noteq> DagCBOR \<longrightarrow> recurseLinks (Suc n) bs lib wlk root inp = (wlk, Inr inp)) \<and>
   ((\<forall>c. Codec c = DagCBOR \<longrightarrow> bs c = bs' c) \<longrightarrow>
      recurseLinks n bs lib wlk root inp = recurseLinks n bs' lib wlk root inp) \<and>
   recurseLinks n bs lib wlk root (inp @ [root]) =
      (case preorder n bs lib wlk root of
         (w, Inl e) \<Rightarrow> (w, Inl e) | (w, Inr ys) \<Rightarrow> (w, Inr (inp @ ys)))"
  using recurseLinks_preorder[of n bs lib wlk root inp]
    recurseLinks_fetches_DagCBOR_only[of bs bs' n lib wlk root inp]
  by simp

text \<open>
  A raw identifier over an empty blockstore, and the message DAG of the top block of the
  example: \<open>dag 12\<close> links to \<open>rawc 100\<close> and \<open>dag 101\<close>, which links to \<open>rawc 100\<close> again
  and to \<open>rawc 102\<close>.
\<close>

theorem recurseLinks_leaves_and_preorder_witness:
  "recurseLinks (Suc 0) (\<lambda>c. None) exLib {} (rawc 100) [rawc 100] = ({}, Inr [rawc 100])
   \<and> snd (preorder 10 (chainGet exStore) exLib {dag 12} (dag 12)) =
        Inr [dag 12, rawc 100, dag 101, rawc 102]
   \<and> snd (recurseLinks 10 (chainGet exStore) exLib {dag 12} (dag 12) ([dag 2] @ [dag 12])) =
        Inr [dag 2, dag 12, rawc 100, dag 101, rawc 102]"
proof -
  have leaf: "Codec (rawc 100) \<noteq> DagCBOR" by code_simp
  have pre: "snd (preorder 10 (chainGet exStore) exLib {dag 12} (dag 12)) =
        Inr [dag 12, rawc 100, dag 101, rawc 102]"
    by code_simp
  note inst1 = recurseLinks_leaves_and_preorder[where root = "rawc 100" and n = 0
      and bs = "\<lambda>c. None" and lib = exLib and wlk = "{}" and inp = "[rawc 100]"]
  note inst2 = recurseLinks_leaves_and_preorder[where root = "dag 12" and n = 10
      and bs = "chainGet exStore" and lib = exLib and wlk = "{dag 12}" and inp = "[dag 2]"]
  have a: "recurseLinks (Suc 0) (\<lambda>c. None) exLib {} (rawc 100) [rawc 100] = ({}, Inr [rawc 100])"
    using inst1 leaf by blast
  have b: "snd (recurseLinks 10 (chainGet exStore) exLib {dag 12} (dag 12) ([dag 2] @ [dag 12])) =
        Inr [dag 2, dag 12, rawc 100, dag 101, rawc 102]"
    using inst2 pre
    by (cases "preorder 10 (chainGet exStore) exLib {dag 12} (dag 12)") auto
  show ?thesis using a pre b by blast
qed






text \<open>
  Claim C4, as the code has it. The state step (lines 178-191) on a header \<open>b\<close> does
  nothing unless \<^verbatim>\<open>b.Height == 0 || b.Height > ts.Height()-inclRecentRoots\<close> holds: \<^verbatim>\<open>out\<close>
  stays \<^verbatim>\<open>cids\<close> and nothing is marked. When the test holds, the state root is expanded
  only if it is not in the walked set yet (the guard of line 179): what is appended to
  \<^verbatim>\<open>out\<close> is then the expansion of the root by the expander of the specification over
  the state blockstore, the root first, followed by the receipts root when receipts are
  not skipped and that root is not walked yet; a failure of the expansion is returned.
  A state root that is in the walked set already is not expanded. A state root not
  walked before is marked exactly when the test holds, and at height 0 the test holds
  whatever the tip-set and the window are.

  In a recorded walk, let \<^verbatim>\<open>walkChain\<close> take a block not seen before, call the callback on
  it, decode its header \<open>b\<close>, finish the message step and return nil. When the test holds
  and the state root was not walked, every identifier of the expansion is walked and
  seen, and it was passed to the callback if it passes the filter and was not seen
  before. Outside the test the call marks nothing and sees the block and \<^verbatim>\<open>cids\<close> only.
\<close>

theorem walkStateRoots_window:
  fixes cb :: "'d callback"
  shows "(Height b = 0 \<or> TsHeight ts - incl <s Height b \<longrightarrow>
      walkStateRoots fuel cs lib ts incl skipMsgReceipts b wlk cids =
        (case (if ParentStateRoot b \<in> wlk then (wlk, Inr [])
               else preorder fuel (stateGet cs) lib (insert (ParentStateRoot b) wlk)
                      (ParentStateRoot b)) of
           (wlk', Inl e) \<Rightarrow> (wlk', Inl e)
         | (wlk', Inr scids) \<Rightarrow>
             if \<not> skipMsgReceipts \<and> ParentMessageReceipts b \<notin> wlk'
             then (insert (ParentMessageReceipts b) wlk',
                   Inr (cids @ scids @ [ParentMessageReceipts b]))
             else (wlk', Inr (cids @ scids))))
   \<and> (Height b \<noteq> 0 \<and> \<not> TsHeight ts - incl <s Height b \<longrightarrow>
      walkStateRoots fuel cs lib ts incl skipMsgReceipts b wlk cids = (wlk, Inr cids))
   \<and> (ParentStateRoot b \<notin> wlk \<longrightarrow>
      (ParentStateRoot b \<in> fst (walkStateRoots fuel cs lib ts incl skipMsgReceipts b wlk cids)) =
        (Height b = 0 \<or> TsHeight ts - incl <s Height b))
   \<and> (Height b = 0 \<longrightarrow>
      ParentStateRoot b \<in> fst (walkStateRoots fuel cs lib ts incl skipMsgReceipts b wlk cids))
   \<and> (\<forall>blk st w1 data wlk1 mcids st1.
        blk \<notin> seen st \<and> recording cb blk (cbState st) = (w1, None) \<and> chainGet cs blk = Some data \<and>
        unmarshalCBOR lib data = Some b \<and>
        walkMessages fuel cs lib ts incl so b (walked st) = (wlk1, Inr mcids) \<and>
        walkChain fuel cs lib ts incl so skipMsgReceipts (recording cb) blk st = (st1, None) \<longrightarrow>
        ((Height b = 0 \<or> TsHeight ts - incl <s Height b) \<and> ParentStateRoot b \<notin> wlk1 \<longrightarrow>
           (\<exists>wlk' ys. preorder fuel (stateGet cs) lib (insert (ParentStateRoot b) wlk1)
                          (ParentStateRoot b) = (wlk', Inr (ParentStateRoot b # ys)) \<and>
              (\<forall>c \<in> set (ParentStateRoot b # ys). c \<in> walked st1 \<and> c \<in> seen st1 \<and>
                 (passesFilter c \<and> c \<notin> insert blk (seen st) \<longrightarrow> c \<in> set (fst (cbState st1)))))) \<and>
        (Height b \<noteq> 0 \<and> \<not> TsHeight ts - incl <s Height b \<longrightarrow>
           walked st1 = wlk1 \<and>
           seen st1 = insert blk (seen st) \<union>
             set (if 0 <s Height b then mcids else mcids @ Parents b)))"
proof -
  have outside: "walkStateRoots fuel cs lib ts incl skipMsgReceipts b w c = (w, Inr c)"
    if "Height b \<noteq> 0 \<and> \<not> TsHeight ts - incl <s Height b" for w c
    using that by (simp add: walkStateRoots_def)
  have inside: "walkStateRoots fuel cs lib ts incl skipMsgReceipts b w c =
        (case (if ParentStateRoot b \<in> w then (w, Inr [])
               else preorder fuel (stateGet cs) lib (insert (ParentStateRoot b) w)
                      (ParentStateRoot b)) of
           (wlk', Inl e) \<Rightarrow> (wlk', Inl e)
         | (wlk', Inr scids) \<Rightarrow>
             if \<not> skipMsgReceipts \<and> ParentMessageReceipts b \<notin> wlk'
             then (insert (ParentMessageReceipts b) wlk',
                   Inr (c @ scids @ [ParentMessageReceipts b]))
             else (wlk', Inr (c @ scids)))"
    if cond: "Height b = 0 \<or> TsHeight ts - incl <s Height b" for w c
  proof (cases "ParentStateRoot b \<in> w")
    case True
    then show ?thesis using cond by (simp add: walkStateRoots_def)
  next
    case False
    obtain w' r where p: "preorder fuel (stateGet cs) lib (insert (ParentStateRoot b) w)
        (ParentStateRoot b) = (w', r)"
      by (cases "preorder fuel (stateGet cs) lib (insert (ParentStateRoot b) w) (ParentStateRoot b)")
    have rl: "recurseLinks fuel (stateGet cs) lib (insert (ParentStateRoot b) w) (ParentStateRoot b)
          [ParentStateRoot b] = (w', r)"
      using recurseLinks_preorder[of fuel "stateGet cs" lib "insert (ParentStateRoot b) w"
          "ParentStateRoot b" "[]"] p by (cases r) simp_all
    show ?thesis using cond False rl p by (cases r) (simp_all add: walkStateRoots_def)
  qed
  have marked: "ParentStateRoot b \<in> fst (walkStateRoots fuel cs lib ts incl skipMsgReceipts b wlk cids)"
    if cond: "Height b = 0 \<or> TsHeight ts - incl <s Height b"
  proof (cases "ParentStateRoot b \<in> wlk")
    case True
    then show ?thesis unfolding inside[OF cond] by simp
  next
    case False
    obtain w' r where p: "preorder fuel (stateGet cs) lib (insert (ParentStateRoot b) wlk)
        (ParentStateRoot b) = (w', r)"
      by (cases "preorder fuel (stateGet cs) lib (insert (ParentStateRoot b) wlk) (ParentStateRoot b)")
    have rl: "recurseLinks fuel (stateGet cs) lib (insert (ParentStateRoot b) wlk) (ParentStateRoot b)
          [ParentStateRoot b] = (w', r)"
      using recurseLinks_preorder[of fuel "stateGet cs" lib "insert (ParentStateRoot b) wlk"
          "ParentStateRoot b" "[]"] p by (cases r) simp_all
    have "insert (ParentStateRoot b) wlk \<subseteq> w'"
      using recurseLinks_walked_mono[of "insert (ParentStateRoot b) wlk" fuel "stateGet cs" lib
          "ParentStateRoot b" "[ParentStateRoot b]"] rl by simp
    then have "ParentStateRoot b \<in> w'" by blast
    then show ?thesis unfolding inside[OF cond] using False p by (cases r) simp_all
  qed
  have iff: "(ParentStateRoot b \<in> fst (walkStateRoots fuel cs lib ts incl skipMsgReceipts b wlk cids)) =
        (Height b = 0 \<or> TsHeight ts - incl <s Height b)"
    if new: "ParentStateRoot b \<notin> wlk"
  proof (cases "Height b = 0 \<or> TsHeight ts - incl <s Height b")
    case True
    then show ?thesis using marked by simp
  next
    case False
    then show ?thesis using new outside[of wlk cids] by simp
  qed
  have listed: "\<exists>wlk' ys. preorder fuel (stateGet cs) lib (insert (ParentStateRoot b) wlk1)
                        (ParentStateRoot b) = (wlk', Inr (ParentStateRoot b # ys)) \<and>
            (\<forall>c \<in> set (ParentStateRoot b # ys). c \<in> walked st1 \<and> c \<in> seen st1 \<and>
               (passesFilter c \<and> c \<notin> insert blk (seen st) \<longrightarrow> c \<in> set (fst (cbState st1))))"
    if ctx: "blk \<notin> seen st" "recording cb blk (cbState st) = (w1, None)" "chainGet cs blk = Some data"
        "unmarshalCBOR lib data = Some b"
        "walkMessages fuel cs lib ts incl so b (walked st) = (wlk1, Inr mcids)"
      and run: "walkChain fuel cs lib ts incl so skipMsgReceipts (recording cb) blk st = (st1, None)"
      and cond: "Height b = 0 \<or> TsHeight ts - incl <s Height b"
      and new: "ParentStateRoot b \<notin> wlk1"
    for blk st w1 data wlk1 mcids st1
  proof -
    define cs0 where "cs0 = (if 0 <s Height b then mcids else mcids @ Parents b)"
    from walkChain_returns_nil[OF ctx run] obtain rest where
      ws: "walkStateRoots fuel cs lib ts incl skipMsgReceipts b wlk1 cs0 = (walked st1, Inr (cs0 @ rest))"
      and em: "emitOut (recording cb) (cs0 @ rest) (insert blk (seen st), w1) =
                 ((seen st1, cbState st1), None)"
      unfolding cs0_def by blast
    obtain w' r where p: "preorder fuel (stateGet cs) lib (insert (ParentStateRoot b) wlk1)
        (ParentStateRoot b) = (w', r)"
      by (cases "preorder fuel (stateGet cs) lib (insert (ParentStateRoot b) wlk1) (ParentStateRoot b)")
    have eq: "(walked st1, Inr (cs0 @ rest)) =
        (case r of Inl e \<Rightarrow> (w', Inl e)
         | Inr scids \<Rightarrow>
             if \<not> skipMsgReceipts \<and> ParentMessageReceipts b \<notin> w'
             then (insert (ParentMessageReceipts b) w',
                   Inr (cs0 @ scids @ [ParentMessageReceipts b]))
             else (w', Inr (cs0 @ scids)))"
      using ws inside[OF cond, of wlk1 cs0] new p by (cases r) simp_all
    obtain zs where r: "r = Inr zs" using eq by (cases r) simp_all
    have sub: "w' \<subseteq> walked st1" "set zs \<subseteq> set (cs0 @ rest)"
      using eq unfolding r by (simp_all split: if_splits) auto
    from preorder_listed(1)[OF p[unfolded r]] obtain ys where
      ys: "zs = ParentStateRoot b # ys" and mk: "set zs \<subseteq> insert (ParentStateRoot b) w'"
      "insert (ParentStateRoot b) wlk1 \<subseteq> w'"
      by blast
    obtain tr w where cbs: "cbState st = (tr, w)" by (cases "cbState st")
    have w1: "fst w1 = tr @ [blk]"
      using ctx(2) cbs by (cases "cb blk w") (auto simp: recording_apply)
    obtain tr1 w'' where cbs1: "cbState st1 = (tr1, w'')" by (cases "cbState st1")
    have "emitOut (recording cb) (cs0 @ rest) (insert blk (seen st), (tr @ [blk], snd w1)) =
        ((seen st1, (tr1, w'')), None)"
      using em w1 cbs1 by (cases w1) simp
    from emitOut_recording_sets[OF this]
    have sets: "seen st1 = insert blk (seen st) \<union> set (cs0 @ rest)"
      "set tr1 = set (tr @ [blk]) \<union>
         {c \<in> set (cs0 @ rest). c \<notin> insert blk (seen st) \<and> passesFilter c}"
      by simp_all
    have "\<forall>c \<in> set zs. c \<in> walked st1 \<and> c \<in> seen st1 \<and>
               (passesFilter c \<and> c \<notin> insert blk (seen st) \<longrightarrow> c \<in> set (fst (cbState st1)))"
      using sub mk sets cbs1 by auto
    then show ?thesis using p r ys by auto
  qed
  have unlisted: "walked st1 = wlk1 \<and>
      seen st1 = insert blk (seen st) \<union> set (if 0 <s Height b then mcids else mcids @ Parents b)"
    if ctx: "blk \<notin> seen st" "recording cb blk (cbState st) = (w1, None)" "chainGet cs blk = Some data"
        "unmarshalCBOR lib data = Some b"
        "walkMessages fuel cs lib ts incl so b (walked st) = (wlk1, Inr mcids)"
      and run: "walkChain fuel cs lib ts incl so skipMsgReceipts (recording cb) blk st = (st1, None)"
      and out: "Height b \<noteq> 0 \<and> \<not> TsHeight ts - incl <s Height b"
    for blk st w1 data wlk1 mcids st1
  proof -
    define cs0 where "cs0 = (if 0 <s Height b then mcids else mcids @ Parents b)"
    from walkChain_returns_nil[OF ctx run] obtain rest where
      ws: "walkStateRoots fuel cs lib ts incl skipMsgReceipts b wlk1 cs0 = (walked st1, Inr (cs0 @ rest))"
      and em: "emitOut (recording cb) (cs0 @ rest) (insert blk (seen st), w1) =
                 ((seen st1, cbState st1), None)"
      unfolding cs0_def by blast
    have same: "walked st1 = wlk1" "rest = []" using ws outside[OF out, of wlk1 cs0] by simp_all
    obtain tr1 w'' where cbs1: "cbState st1 = (tr1, w'')" by (cases "cbState st1")
    have "emitOut (recording cb) (cs0 @ rest) (insert blk (seen st), (fst w1, snd w1)) =
        ((seen st1, (tr1, w'')), None)"
      using em cbs1 by simp
    from emitOut_recording_sets[OF this] show ?thesis using same unfolding cs0_def by simp
  qed
  show ?thesis
  proof (intro conjI allI impI)
    assume "Height b = 0 \<or> TsHeight ts - incl <s Height b"
    then show "walkStateRoots fuel cs lib ts incl skipMsgReceipts b wlk cids =
        (case (if ParentStateRoot b \<in> wlk then (wlk, Inr [])
               else preorder fuel (stateGet cs) lib (insert (ParentStateRoot b) wlk)
                      (ParentStateRoot b)) of
           (wlk', Inl e) \<Rightarrow> (wlk', Inl e)
         | (wlk', Inr scids) \<Rightarrow>
             if \<not> skipMsgReceipts \<and> ParentMessageReceipts b \<notin> wlk'
             then (insert (ParentMessageReceipts b) wlk',
                   Inr (cids @ scids @ [ParentMessageReceipts b]))
             else (wlk', Inr (cids @ scids)))"
      by (rule inside)
  next
    assume "Height b \<noteq> 0 \<and> \<not> TsHeight ts - incl <s Height b"
    then show "walkStateRoots fuel cs lib ts incl skipMsgReceipts b wlk cids = (wlk, Inr cids)"
      by (rule outside)
  next
    assume "ParentStateRoot b \<notin> wlk"
    then show "(ParentStateRoot b \<in> fst (walkStateRoots fuel cs lib ts incl skipMsgReceipts b wlk cids)) =
        (Height b = 0 \<or> TsHeight ts - incl <s Height b)"
      by (rule iff)
  next
    assume "Height b = 0"
    then show "ParentStateRoot b \<in> fst (walkStateRoots fuel cs lib ts incl skipMsgReceipts b wlk cids)"
      using marked by blast
  next
    fix blk st w1 data wlk1 mcids st1
    assume a: "blk \<notin> seen st \<and> recording cb blk (cbState st) = (w1, None) \<and> chainGet cs blk = Some data \<and>
        unmarshalCBOR lib data = Some b \<and>
        walkMessages fuel cs lib ts incl so b (walked st) = (wlk1, Inr mcids) \<and>
        walkChain fuel cs lib ts incl so skipMsgReceipts (recording cb) blk st = (st1, None)"
    assume c: "(Height b = 0 \<or> TsHeight ts - incl <s Height b) \<and> ParentStateRoot b \<notin> wlk1"
    show "\<exists>wlk' ys. preorder fuel (stateGet cs) lib (insert (ParentStateRoot b) wlk1)
                        (ParentStateRoot b) = (wlk', Inr (ParentStateRoot b # ys)) \<and>
            (\<forall>c \<in> set (ParentStateRoot b # ys). c \<in> walked st1 \<and> c \<in> seen st1 \<and>
               (passesFilter c \<and> c \<notin> insert blk (seen st) \<longrightarrow> c \<in> set (fst (cbState st1))))"
      using listed[of blk st w1 data wlk1 mcids st1] a c by blast
  next
    fix blk st w1 data wlk1 mcids st1
    assume a: "blk \<notin> seen st \<and> recording cb blk (cbState st) = (w1, None) \<and> chainGet cs blk = Some data \<and>
        unmarshalCBOR lib data = Some b \<and>
        walkMessages fuel cs lib ts incl so b (walked st) = (wlk1, Inr mcids) \<and>
        walkChain fuel cs lib ts incl so skipMsgReceipts (recording cb) blk st = (st1, None)"
    assume c: "Height b \<noteq> 0 \<and> \<not> TsHeight ts - incl <s Height b"
    from unlisted[of blk st w1 data wlk1 mcids st1] a c show "walked st1 = wlk1" by blast
    from unlisted[of blk st w1 data wlk1 mcids st1] a c
    show "seen st1 = insert blk (seen st) \<union> set (if 0 <s Height b then mcids else mcids @ Parents b)"
      by blast
  qed
qed

text \<open>
  The top block of the example chain, inside a window of one epoch: its state root
  \<open>dag 22\<close> is expanded down to the links of \<open>dag 23\<close>, the receipts root \<open>dag 32\<close> follows,
  and \<open>dag 23\<close> reaches the callback. The block at height 1 is outside that window.
  The genesis block of the second chain, with an empty window and receipts skipped: the
  link \<open>rawc 81\<close> of its state root reaches the callback, also in the whole walk.
\<close>

theorem walkStateRoots_window_witness:
  "TsHeight exTipSet - 1 <s Height exHeader2
   \<and> walkStateRoots 10 exStore exLib exTipSet 1 False exHeader2 {} [] =
        ({dag 22, dag 23, rawc 24, Cid Raw IDENTITY 25, Cid 0x70 0x12 26, dag 32},
         Inr [dag 22, dag 23, rawc 24, Cid Raw IDENTITY 25, Cid 0x70 0x12 26, dag 32])
   \<and> dag 23 \<in> set (fst (cbState (fst (walkChain 10 exStore exLib exTipSet 1 True False
          (recording okCb) (dag 2) exRecStart))))
   \<and> Height exHeader1 \<noteq> 0
   \<and> walkStateRoots 10 exStore exLib exTipSet 1 False exHeader1 {dag 12} [dag 0] = ({dag 12}, Inr [dag 0])
   \<and> Height exGenesisHeader = 0
   \<and> stateGet exSharedStore (ParentStateRoot exGenesisHeader) = Some (NodeObj [rawc 81] False)
   \<and> rawc 81 \<in> set (fst (cbState (fst (walkChain 10 exSharedStore exLib exSharedTipSet 0 True True
          (recording okCb) (dag 70) exRecStart))))
   \<and> emitted 10 exSharedStore exLib None 1 True True okCb () =
        [dag 71, rawc 73, rawc 74, dag 70, dag 80, rawc 81]"
proof -
  define top where "top = fst (walkChain 10 exStore exLib exTipSet 1 True False (recording okCb)
    (dag 2) exRecStart)"
  define gen where "gen = fst (walkChain 10 exSharedStore exLib exSharedTipSet 0 True True
    (recording okCb) (dag 70) exRecStart)"
  have fresh: "dag 2 \<notin> seen exRecStart" "dag 70 \<notin> seen exRecStart"
    by code_simp+
  have cb2: "recording okCb (dag 2) (cbState exRecStart) = (([dag 2], ()), None)"
    and cb70: "recording okCb (dag 70) (cbState exRecStart) = (([dag 70], ()), None)"
    by code_simp+
  have get2: "chainGet exStore (dag 2) = Some (HeaderObj exHeader2)"
    and get70: "chainGet exSharedStore (dag 70) = Some (HeaderObj exGenesisHeader)"
    by code_simp+
  have dec2: "unmarshalCBOR exLib (HeaderObj exHeader2) = Some exHeader2"
    and dec70: "unmarshalCBOR exLib (HeaderObj exGenesisHeader) = Some exGenesisHeader" by code_simp+
  have msg2: "walkMessages 10 exStore exLib exTipSet 1 True exHeader2 (walked exRecStart) =
      ({dag 12, rawc 100, dag 101, rawc 102}, Inr [dag 12, rawc 100, dag 101, rawc 102])"
    and msg70: "walkMessages 10 exSharedStore exLib exSharedTipSet 0 True exGenesisHeader
      (walked exRecStart) = ({}, Inr [])"
    by code_simp+
  have in2: "TsHeight exTipSet - 1 <s Height exHeader2"
    and out1: "Height exHeader1 \<noteq> 0" "\<not> TsHeight exTipSet - 1 <s Height exHeader1"
    and h0: "Height exGenesisHeader = 0"
    by code_simp+
  have new2: "ParentStateRoot exHeader2 \<notin> {dag 12, rawc 100, dag 101, rawc 102}"
    and new70: "ParentStateRoot exGenesisHeader \<notin> {}"
    by code_simp+
  have pre2: "preorder 10 (stateGet exStore) exLib (insert (ParentStateRoot exHeader2) {})
      (ParentStateRoot exHeader2) =
        ({dag 22, dag 23, rawc 24, Cid Raw IDENTITY 25, Cid 0x70 0x12 26},
         Inr [dag 22, dag 23, rawc 24, Cid Raw IDENTITY 25, Cid 0x70 0x12 26])"
    and pre2': "preorder 10 (stateGet exStore) exLib
      (insert (ParentStateRoot exHeader2) {dag 12, rawc 100, dag 101, rawc 102})
      (ParentStateRoot exHeader2) =
        ({dag 12, rawc 100, dag 101, rawc 102, dag 22, dag 23, rawc 24, Cid Raw IDENTITY 25,
          Cid 0x70 0x12 26},
         Inr [dag 22, dag 23, rawc 24, Cid Raw IDENTITY 25, Cid 0x70 0x12 26])"
    and pre70: "preorder 10 (stateGet exSharedStore) exLib (insert (ParentStateRoot exGenesisHeader) {})
      (ParentStateRoot exGenesisHeader) = ({dag 80, rawc 81}, Inr [dag 80, rawc 81])"
    by code_simp+
  have rc2: "ParentMessageReceipts exHeader2 = dag 32"
    "dag 32 \<notin> {dag 22, dag 23, rawc 24, Cid Raw IDENTITY 25, Cid 0x70 0x12 26}"
    "ParentStateRoot exHeader2 \<notin> {}"
    by code_simp+
  have links: "stateGet exSharedStore (ParentStateRoot exGenesisHeader) = Some (NodeObj [rawc 81] False)"
    by code_simp
  have pass: "passesFilter (dag 23)" "dag 23 \<notin> insert (dag 2) (seen exRecStart)"
    "passesFilter (rawc 81)" "rawc 81 \<notin> insert (dag 70) (seen exRecStart)"
    by code_simp+
  have nil2: "snd (walkChain 10 exStore exLib exTipSet 1 True False (recording okCb) (dag 2)
      exRecStart) = None"
    and nil70: "snd (walkChain 10 exSharedStore exLib exSharedTipSet 0 True True (recording okCb)
      (dag 70) exRecStart) = None"
    by code_simp+
  have run2: "walkChain 10 exStore exLib exTipSet 1 True False (recording okCb) (dag 2) exRecStart =
      (top, None)"
    using nil2 by (simp add: prod_eq_iff top_def)
  have run70: "walkChain 10 exSharedStore exLib exSharedTipSet 0 True True (recording okCb) (dag 70)
      exRecStart = (gen, None)"
    using nil70 by (simp add: prod_eq_iff gen_def)
  have walk: "emitted 10 exSharedStore exLib None 1 True True okCb () =
        [dag 71, rawc 73, rawc 74, dag 70, dag 80, rawc 81]"
    by code_simp
  note t = walkStateRoots_window[where cb = okCb and b = exHeader2 and ts = exTipSet and incl = 1
      and fuel = 10 and cs = exStore and lib = exLib and skipMsgReceipts = False and wlk = "{}"
      and cids = "[]" and so = True]
  note m = walkStateRoots_window[where cb = okCb and b = exHeader1 and ts = exTipSet and incl = 1
      and fuel = 10 and cs = exStore and lib = exLib and skipMsgReceipts = False and wlk = "{dag 12}"
      and cids = "[dag 0]" and so = True]
  note g = walkStateRoots_window[where cb = okCb and b = exGenesisHeader and ts = exSharedTipSet
      and incl = 0 and fuel = 10 and cs = exSharedStore and lib = exLib and skipMsgReceipts = True
      and wlk = "{}" and cids = "[]" and so = True]
  have a: "walkStateRoots 10 exStore exLib exTipSet 1 False exHeader2 {} [] =
        ({dag 22, dag 23, rawc 24, Cid Raw IDENTITY 25, Cid 0x70 0x12 26, dag 32},
         Inr [dag 22, dag 23, rawc 24, Cid Raw IDENTITY 25, Cid 0x70 0x12 26, dag 32])"
  proof -
    have "walkStateRoots 10 exStore exLib exTipSet 1 False exHeader2 {} [] =
        (case (if ParentStateRoot exHeader2 \<in> {} then ({}, Inr [])
               else preorder 10 (stateGet exStore) exLib (insert (ParentStateRoot exHeader2) {})
                      (ParentStateRoot exHeader2)) of
           (wlk', Inl e) \<Rightarrow> (wlk', Inl e)
         | (wlk', Inr scids) \<Rightarrow>
             if \<not> False \<and> ParentMessageReceipts exHeader2 \<notin> wlk'
             then (insert (ParentMessageReceipts exHeader2) wlk',
                   Inr ([] @ scids @ [ParentMessageReceipts exHeader2]))
             else (wlk', Inr ([] @ scids)))"
      using t[THEN conjunct1] in2 by blast
    then show ?thesis unfolding pre2 using rc2 by auto
  qed
  have b: "dag 23 \<in> set (fst (cbState top))"
  proof -
    from t[THEN conjunct2, THEN conjunct2, THEN conjunct2, THEN conjunct2]
      fresh(1) cb2 get2 dec2 msg2 run2 in2 new2
    obtain wlk' ys where
      "preorder 10 (stateGet exStore) exLib
         (insert (ParentStateRoot exHeader2) {dag 12, rawc 100, dag 101, rawc 102})
         (ParentStateRoot exHeader2) = (wlk', Inr (ParentStateRoot exHeader2 # ys))"
      and all: "\<forall>c \<in> set (ParentStateRoot exHeader2 # ys). c \<in> walked top \<and> c \<in> seen top \<and>
         (passesFilter c \<and> c \<notin> insert (dag 2) (seen exRecStart) \<longrightarrow> c \<in> set (fst (cbState top)))"
      by blast
    then have "ParentStateRoot exHeader2 # ys = [dag 22, dag 23, rawc 24, Cid Raw IDENTITY 25, Cid 0x70 0x12 26]"
      unfolding pre2' by simp
    then have "dag 23 \<in> set (ParentStateRoot exHeader2 # ys)" by simp
    then show ?thesis using all pass(1,2) by blast
  qed
  have c: "walkStateRoots 10 exStore exLib exTipSet 1 False exHeader1 {dag 12} [dag 0] = ({dag 12}, Inr [dag 0])"
    using m[THEN conjunct2, THEN conjunct1] out1 by blast
  have d: "rawc 81 \<in> set (fst (cbState gen))"
  proof -
    from g[THEN conjunct2, THEN conjunct2, THEN conjunct2, THEN conjunct2]
      fresh(2) cb70 get70 dec70 msg70 run70 h0 new70
    obtain wlk' ys where
      "preorder 10 (stateGet exSharedStore) exLib (insert (ParentStateRoot exGenesisHeader) {})
         (ParentStateRoot exGenesisHeader) = (wlk', Inr (ParentStateRoot exGenesisHeader # ys))"
      and all: "\<forall>c \<in> set (ParentStateRoot exGenesisHeader # ys). c \<in> walked gen \<and> c \<in> seen gen \<and>
         (passesFilter c \<and> c \<notin> insert (dag 70) (seen exRecStart) \<longrightarrow> c \<in> set (fst (cbState gen)))"
      by blast
    then have "ParentStateRoot exGenesisHeader # ys = [dag 80, rawc 81]"
      unfolding pre70 by simp
    then have "rawc 81 \<in> set (ParentStateRoot exGenesisHeader # ys)" by simp
    then show ?thesis using all pass(3,4) by blast
  qed
  show ?thesis using in2 a b out1(1) c h0 links d walk unfolding top_def gen_def by blast
qed

text \<open>
  The claim as stated fails when the state root was marked before without being
  expanded. In the second chain the receipts root of the block at height 1 is the state
  root of genesis. With receipts not skipped, the block at height 1 marks \<open>dag 80\<close> as its
  receipts root (line 188) and appends it unexpanded; at genesis line 179 finds it in
  the walked set and the expansion is left out. The walk returns nil, and \<open>rawc 81\<close>, the
  link of the genesis state root, is never passed to the callback.
\<close>

theorem genesis_state_not_expanded_counterexample:
  "headerAt exSharedStore exLib (dag 71) = Some exTopHeader
   \<and> Height exTopHeader = 1 \<and> ParentMessageReceipts exTopHeader = dag 80
   \<and> headerAt exSharedStore exLib (dag 70) = Some exGenesisHeader
   \<and> Height exGenesisHeader = 0 \<and> ParentStateRoot exGenesisHeader = dag 80
   \<and> preorder 10 (stateGet exSharedStore) exLib {dag 80} (dag 80) = ({dag 80, rawc 81}, Inr [dag 80, rawc 81])
   \<and> passesFilter (rawc 81)
   \<and> WalkSnapshot 10 exSharedStore exLib (Some exSharedTipSet) 1 True False (recording okCb) ([], ()) =
        (([dag 71, rawc 73, rawc 74, dag 80, dag 70, rawc 75], ()), None)
   \<and> walkStateRoots 10 exSharedStore exLib exSharedTipSet 1 False exGenesisHeader
        {rawc 73, rawc 74, dag 80} [] = ({rawc 73, rawc 74, dag 80, rawc 75}, Inr [rawc 75])"
  by code_simp

text \<open>
  Claim C10. Within the window, not skipping receipts changes the result of lines
  176-191 in one way only: the receipts root itself, unless already walked, is marked
  and appended to \<^verbatim>\<open>out\<close> as a single identifier. Nothing is fetched or scanned for
  it, whatever the stores hold under it, whereas the state root goes through
  \<open>recurseLinks\<close>.
\<close>

theorem receipts_root_is_a_leaf:
  assumes window: "Height b = 0 \<or> TsHeight ts - incl <s Height b"
  shows "walkStateRoots fuel cs lib ts incl False b wlk cids =
     (case walkStateRoots fuel cs lib ts incl True b wlk cids of
        (wlk', Inl e) \<Rightarrow> (wlk', Inl e)
      | (wlk', Inr out) \<Rightarrow>
          if ParentMessageReceipts b \<in> wlk' then (wlk', Inr out)
          else (insert (ParentMessageReceipts b) wlk', Inr (out @ [ParentMessageReceipts b])))"
proof (cases "ParentStateRoot b \<in> wlk")
  case True
  then show ?thesis using window by (simp add: walkStateRoots_def)
next
  case False
  obtain w r where rl: "recurseLinks fuel (stateGet cs) lib (insert (ParentStateRoot b) wlk)
                      (ParentStateRoot b) [ParentStateRoot b] = (w, r)"
    by (cases "recurseLinks fuel (stateGet cs) lib (insert (ParentStateRoot b) wlk)
                      (ParentStateRoot b) [ParentStateRoot b]")
  show ?thesis using False window rl by (cases r) (simp_all add: walkStateRoots_def)
qed

text \<open>
  The top block of the example: its state DAG has five identifiers; its receipts root
  \<open>dag 32\<close> is stored with a link to \<open>dag 33\<close>, which is neither listed nor fetched (it is
  not in the store).
\<close>

theorem receipts_root_is_a_leaf_witness:
  "map_of exObjects (dag 32) = Some (NodeObj [dag 33] False)
   \<and> snd (walkStateRoots 10 exStore exLib exTipSet 1 True exHeader2 {} []) =
        Inr [dag 22, dag 23, rawc 24, Cid Raw IDENTITY 25, Cid 0x70 0x12 26]
   \<and> snd (walkStateRoots 10 exStore exLib exTipSet 1 False exHeader2 {} []) =
        Inr [dag 22, dag 23, rawc 24, Cid Raw IDENTITY 25, Cid 0x70 0x12 26, dag 32]
   \<and> emitted 10 exStore exLib None 1 True False okCb () =
        [dag 2, dag 12, rawc 100, dag 101, rawc 102, dag 22, dag 23, rawc 24, dag 32,
         dag 1, dag 0, rawc 40, dag 20, dag 30]"
proof -
  have walk: "emitted 10 exStore exLib None 1 True False okCb () =
        [dag 2, dag 12, rawc 100, dag 101, rawc 102, dag 22, dag 23, rawc 24, dag 32,
         dag 1, dag 0, rawc 40, dag 20, dag 30]"
    by code_simp
  have window: "Height exHeader2 = 0 \<or> TsHeight exTipSet - 1 <s Height exHeader2" by code_simp
  have stored: "map_of exObjects (dag 32) = Some (NodeObj [dag 33] False)" by code_simp
  have state: "snd (walkStateRoots 10 exStore exLib exTipSet 1 True exHeader2 {} []) =
        Inr [dag 22, dag 23, rawc 24, Cid Raw IDENTITY 25, Cid 0x70 0x12 26]"
    by code_simp
  have ev: "snd (case walkStateRoots 10 exStore exLib exTipSet 1 True exHeader2 {} [] of
        (wlk', Inl e) \<Rightarrow> (wlk', Inl e)
      | (wlk', Inr out) \<Rightarrow>
          if ParentMessageReceipts exHeader2 \<in> wlk' then (wlk', Inr out)
          else (insert (ParentMessageReceipts exHeader2) wlk',
                Inr (out @ [ParentMessageReceipts exHeader2]))) =
        Inr [dag 22, dag 23, rawc 24, Cid Raw IDENTITY 25, Cid 0x70 0x12 26, dag 32]"
    by code_simp
  have "snd (walkStateRoots 10 exStore exLib exTipSet 1 False exHeader2 {} []) =
        Inr [dag 22, dag 23, rawc 24, Cid Raw IDENTITY 25, Cid 0x70 0x12 26, dag 32]"
    using receipts_root_is_a_leaf[OF window, of 10 exStore exLib "{}" "[]"] ev by simp
  then show ?thesis using stored state walk by blast
qed

text \<open>
  Claim C9. Let a recorded walk take a block not seen before, call the callback on it,
  decode its header \<open>b\<close> and finish the message step. The parents of a header above
  height 0 are appended at the tail of \<^verbatim>\<open>blocksToWalk\<close> (the loop takes from the head), and
  \<^verbatim>\<open>out\<close> starts with the message identifiers only; when the call returns nil, the next
  turn of the loop calls \<^verbatim>\<open>walkChain\<close> on the first parent if nothing else waited in the
  frontier, and when the loop then runs to its end without error, the frontier is empty
  and every parent was taken from it and went through \<^verbatim>\<open>seen.Visit\<close> of line 131, and a
  parent that passes the filter and was not seen when the call returned was passed to
  the callback. For a header
  that is not above height 0, genesis at height 0, the frontier is unchanged and the
  parents follow the message identifiers in \<^verbatim>\<open>out\<close>, unexpanded; when the call returns
  nil every parent is seen, and it is in the record of the callback exactly if it was
  there before, or is the block itself, or was not seen before and passes the filter.
  In every case what the call passes to the callback after the block itself is what the
  filtering loop \<open>emitOut\<close> passes from \<^verbatim>\<open>out\<close>.
\<close>

theorem walkChain_parents:
  fixes cb :: "'d callback"
  assumes "blk \<notin> seen st" "recording cb blk (cbState st) = (w1, None)" "chainGet cs blk = Some data"
    "unmarshalCBOR lib data = Some b"
    "walkMessages fuel cs lib ts incl so b (walked st) = (wlk, Inr mcids)"
  shows "blocksToWalk (fst (walkChain fuel cs lib ts incl so sr (recording cb) blk st)) =
           (if 0 <s Height b then blocksToWalk st @ Parents b else blocksToWalk st)
    \<and> (\<forall>wlk' out. walkStateRoots fuel cs lib ts incl sr b wlk
                      (if 0 <s Height b then mcids else mcids @ Parents b) = (wlk', Inr out) \<longrightarrow>
          (\<exists>rest. out = (if 0 <s Height b then mcids else mcids @ Parents b) @ rest) \<and>
          (seen (fst (walkChain fuel cs lib ts incl so sr (recording cb) blk st)),
           cbState (fst (walkChain fuel cs lib ts incl so sr (recording cb) blk st))) =
             fst (emitOut (recording cb) out (insert blk (seen st), w1)) \<and>
          snd (walkChain fuel cs lib ts incl so sr (recording cb) blk st) =
             snd (emitOut (recording cb) out (insert blk (seen st), w1)))
    \<and> (\<forall>st1. walkChain fuel cs lib ts incl so sr (recording cb) blk st = (st1, None) \<longrightarrow>
          (\<exists>rest. walkStateRoots fuel cs lib ts incl sr b wlk
                     (if 0 <s Height b then mcids else mcids @ Parents b) =
                       (walked st1, Inr ((if 0 <s Height b then mcids else mcids @ Parents b) @ rest))) \<and>
          (0 <s Height b \<longrightarrow>
             (\<forall>n depth p ps. blocksToWalk st = [] \<and> Parents b = p # ps \<longrightarrow>
                walkLoop (Suc n) depth cs lib ts incl so sr (recording cb) st1 =
                  (case walkChain depth cs lib ts incl so sr (recording cb) p
                          (st1\<lparr>blocksToWalk := ps\<rparr>) of
                     (st', Some e) \<Rightarrow> (st', Some e)
                   | (st', None) \<Rightarrow> walkLoop n depth cs lib ts incl so sr (recording cb) st')) \<and>
             (\<forall>n depth st'. walkLoop n depth cs lib ts incl so sr (recording cb) st1 = (st', None) \<longrightarrow>
                blocksToWalk st' = [] \<and>
                (\<forall>p \<in> set (Parents b). p \<in> seen st' \<and>
                   (passesFilter p \<and> p \<notin> seen st1 \<longrightarrow> p \<in> set (fst (cbState st')))))) \<and>
          (\<not> 0 <s Height b \<longrightarrow>
             (\<forall>p \<in> set (Parents b). p \<in> seen st1 \<and>
                (p \<in> set (fst (cbState st1))) =
                  (p \<in> set (fst (cbState st)) \<or> p = blk \<or> (p \<notin> seen st \<and> passesFilter p)))))"
proof -
  have frontier: "blocksToWalk (fst (walkChain fuel cs lib ts incl so sr (recording cb) blk st)) =
           (if 0 <s Height b then blocksToWalk st @ Parents b else blocksToWalk st)"
    using assms by (rule walkChain_blocksToWalk)
  have rest: "(\<exists>rest. walkStateRoots fuel cs lib ts incl sr b wlk
                     (if 0 <s Height b then mcids else mcids @ Parents b) =
                       (walked st1, Inr ((if 0 <s Height b then mcids else mcids @ Parents b) @ rest))) \<and>
          (0 <s Height b \<longrightarrow>
             (\<forall>n depth p ps. blocksToWalk st = [] \<and> Parents b = p # ps \<longrightarrow>
                walkLoop (Suc n) depth cs lib ts incl so sr (recording cb) st1 =
                  (case walkChain depth cs lib ts incl so sr (recording cb) p
                          (st1\<lparr>blocksToWalk := ps\<rparr>) of
                     (st', Some e) \<Rightarrow> (st', Some e)
                   | (st', None) \<Rightarrow> walkLoop n depth cs lib ts incl so sr (recording cb) st')) \<and>
             (\<forall>n depth st'. walkLoop n depth cs lib ts incl so sr (recording cb) st1 = (st', None) \<longrightarrow>
                blocksToWalk st' = [] \<and>
                (\<forall>p \<in> set (Parents b). p \<in> seen st' \<and>
                   (passesFilter p \<and> p \<notin> seen st1 \<longrightarrow> p \<in> set (fst (cbState st')))))) \<and>
          (\<not> 0 <s Height b \<longrightarrow>
             (\<forall>p \<in> set (Parents b). p \<in> seen st1 \<and>
                (p \<in> set (fst (cbState st1))) =
                  (p \<in> set (fst (cbState st)) \<or> p = blk \<or> (p \<notin> seen st \<and> passesFilter p))))"
    if run: "walkChain fuel cs lib ts incl so sr (recording cb) blk st = (st1, None)" for st1
  proof -
    define cids where "cids = (if 0 <s Height b then mcids else mcids @ Parents b)"
    from walkChain_returns_nil[OF assms run] obtain rest where
      ws: "walkStateRoots fuel cs lib ts incl sr b wlk cids = (walked st1, Inr (cids @ rest))"
      and em: "emitOut (recording cb) (cids @ rest) (insert blk (seen st), w1) =
                 ((seen st1, cbState st1), None)"
      unfolding cids_def by blast
    have first: "\<exists>rest. walkStateRoots fuel cs lib ts incl sr b wlk cids =
        (walked st1, Inr (cids @ rest))"
      using ws by blast
    obtain tr w where cbs: "cbState st = (tr, w)" by (cases "cbState st")
    have w1: "fst w1 = tr @ [blk]"
      using assms(2) cbs by (cases "cb blk w") (auto simp: recording_apply)
    obtain tr1 w' where cbs1: "cbState st1 = (tr1, w')" by (cases "cbState st1")
    have "emitOut (recording cb) (cids @ rest) (insert blk (seen st), (tr @ [blk], snd w1)) =
        ((seen st1, (tr1, w')), None)"
      using em w1 cbs1 by (cases w1) simp
    from emitOut_recording_sets[OF this]
    have sets: "seen st1 = insert blk (seen st) \<union> set (cids @ rest)"
      "set tr1 = set (tr @ [blk]) \<union>
         {c \<in> set (cids @ rest). c \<notin> insert blk (seen st) \<and> passesFilter c}"
      by simp_all
    have genesis: "\<forall>p \<in> set (Parents b). p \<in> seen st1 \<and>
                (p \<in> set (fst (cbState st1))) =
                  (p \<in> set (fst (cbState st)) \<or> p = blk \<or> (p \<notin> seen st \<and> passesFilter p))"
      if "\<not> 0 <s Height b"
    proof
      fix p assume "p \<in> set (Parents b)"
      then have "p \<in> set (cids @ rest)" using that by (simp add: cids_def)
      then show "p \<in> seen st1 \<and>
                (p \<in> set (fst (cbState st1))) =
                  (p \<in> set (fst (cbState st)) \<or> p = blk \<or> (p \<notin> seen st \<and> passesFilter p))"
        using sets cbs cbs1 by auto
    qed
    have above: "blocksToWalk st' = [] \<and>
                (\<forall>p \<in> set (Parents b). p \<in> seen st' \<and>
                   (passesFilter p \<and> p \<notin> seen st1 \<longrightarrow> p \<in> set (fst (cbState st'))))"
      if up: "0 <s Height b"
        and loop: "walkLoop n depth cs lib ts incl so sr (recording cb) st1 = (st', None)"
      for n depth st'
    proof -
      have queue: "set (Parents b) \<subseteq> seen st1 \<union> set (blocksToWalk st1)"
        using frontier run up by auto
      define V where "V = (\<lambda>w :: cid list \<times> 'd. set (fst w) \<union> seen st1)"
      have view: "\<forall>c w w'. recording cb c w = (w', None) \<longrightarrow> V w' = insert c (V w)"
      proof (intro allI impI)
        fix c w w'
        assume "recording cb c w = (w', None)"
        then have "fst w' = fst w @ [c]"
          by (cases w, cases "cb c (snd w)") (auto simp: recording_apply)
        then show "V w' = insert c (V w)" by (auto simp: V_def)
      qed
      have "(\<forall>c \<in> seen st'. passesFilter c \<longrightarrow> c \<in> V (cbState st')) \<and> set (Parents b) \<subseteq> seen st'"
        by (rule walkLoop_success[OF view loop _ queue]) (simp add: V_def)
      then show ?thesis using walkLoop_empties[OF loop] by (auto simp: V_def)
    qed
    have next_one: "walkLoop (Suc n) depth cs lib ts incl so sr (recording cb) st1 =
                  (case walkChain depth cs lib ts incl so sr (recording cb) p
                          (st1\<lparr>blocksToWalk := ps\<rparr>) of
                     (st', Some e) \<Rightarrow> (st', Some e)
                   | (st', None) \<Rightarrow> walkLoop n depth cs lib ts incl so sr (recording cb) st')"
      if "0 <s Height b" "blocksToWalk st = [] \<and> Parents b = p # ps" for n depth p ps
    proof -
      have "blocksToWalk st1 = p # ps" using frontier run that by simp
      then show ?thesis by simp
    qed
    show ?thesis
    proof (intro conjI allI impI ballI)
      show "\<exists>rest. walkStateRoots fuel cs lib ts incl sr b wlk
                     (if 0 <s Height b then mcids else mcids @ Parents b) =
                       (walked st1, Inr ((if 0 <s Height b then mcids else mcids @ Parents b) @ rest))"
        using first unfolding cids_def .
    next
      fix n depth p ps
      assume "0 <s Height b" "blocksToWalk st = [] \<and> Parents b = p # ps"
      then show "walkLoop (Suc n) depth cs lib ts incl so sr (recording cb) st1 =
                  (case walkChain depth cs lib ts incl so sr (recording cb) p
                          (st1\<lparr>blocksToWalk := ps\<rparr>) of
                     (st', Some e) \<Rightarrow> (st', Some e)
                   | (st', None) \<Rightarrow> walkLoop n depth cs lib ts incl so sr (recording cb) st')"
        by (rule next_one)
    next
      fix n depth st'
      assume "0 <s Height b" "walkLoop n depth cs lib ts incl so sr (recording cb) st1 = (st', None)"
      then show "blocksToWalk st' = []" using above by blast
    next
      fix n depth st' p
      assume "0 <s Height b" "walkLoop n depth cs lib ts incl so sr (recording cb) st1 = (st', None)"
        "p \<in> set (Parents b)"
      then show "p \<in> seen st'" using above by blast
    next
      fix n depth st' p
      assume "0 <s Height b" "walkLoop n depth cs lib ts incl so sr (recording cb) st1 = (st', None)"
        "p \<in> set (Parents b)" "passesFilter p \<and> p \<notin> seen st1"
      then show "p \<in> set (fst (cbState st'))" using above by blast
    next
      fix p
      assume "\<not> 0 <s Height b" "p \<in> set (Parents b)"
      then show "p \<in> seen st1" using genesis by blast
    next
      fix p
      assume "\<not> 0 <s Height b" "p \<in> set (Parents b)"
      then show "(p \<in> set (fst (cbState st1))) =
                  (p \<in> set (fst (cbState st)) \<or> p = blk \<or> (p \<notin> seen st \<and> passesFilter p))"
        using genesis by blast
    qed
  qed
  have filtered: "(\<exists>rest. out = (if 0 <s Height b then mcids else mcids @ Parents b) @ rest) \<and>
          (seen (fst (walkChain fuel cs lib ts incl so sr (recording cb) blk st)),
           cbState (fst (walkChain fuel cs lib ts incl so sr (recording cb) blk st))) =
             fst (emitOut (recording cb) out (insert blk (seen st), w1)) \<and>
          snd (walkChain fuel cs lib ts incl so sr (recording cb) blk st) =
             snd (emitOut (recording cb) out (insert blk (seen st), w1))"
    if ws: "walkStateRoots fuel cs lib ts incl sr b wlk
              (if 0 <s Height b then mcids else mcids @ Parents b) = (w', Inr out)" for w' out
  proof -
    have wp: "walkParents b (blocksToWalk st, mcids) =
        (if 0 <s Height b then blocksToWalk st @ Parents b else blocksToWalk st,
         if 0 <s Height b then mcids else mcids @ Parents b)"
      by (simp add: walkParents_def)
    note unfold = walkChain_header[where cb = "recording cb" and sr = sr, OF assms wp]
    show ?thesis using unfold ws walkStateRoots_extends[OF ws] by (simp split: prod.splits)
  qed
  show ?thesis
  proof (intro conjI allI impI)
    show "blocksToWalk (fst (walkChain fuel cs lib ts incl so sr (recording cb) blk st)) =
           (if 0 <s Height b then blocksToWalk st @ Parents b else blocksToWalk st)"
      by (rule frontier)
  qed (use filtered rest in blast)+
qed

text \<open>
  The genesis block and the top block of the example. Walked from the state
  \<open>exRecState\<close>, the genesis parent \<open>rawc 40\<close> reaches the callback and the frontier stays
  \<open>[dag 7]\<close>, while the parent \<open>dag 1\<close> of the top block goes behind \<open>dag 7\<close>. In the walk
  from the tip-set, \<open>dag 1\<close> is taken from the frontier after the top block and reaches
  the callback, and so do \<open>dag 0\<close> and \<open>rawc 40\<close> after it.
\<close>

theorem walkChain_parents_witness:
  "\<not> 0 <s Height exHeader0
   \<and> blocksToWalk (fst (walkChain 10 exStore exLib exTipSet 1 True False (recording okCb) (dag 0)
          exRecState)) = [dag 7]
   \<and> rawc 40 \<in> set (Parents exHeader0)
   \<and> rawc 40 \<in> set (fst (cbState (fst (walkChain 10 exStore exLib exTipSet 1 True False
          (recording okCb) (dag 0) exRecState))))
   \<and> 0 <s Height exHeader2
   \<and> blocksToWalk (fst (walkChain 10 exStore exLib exTipSet 1 True False (recording okCb) (dag 2)
          exRecState)) = [dag 7, dag 1]
   \<and> dag 1 \<in> set (Parents exHeader2)
   \<and> dag 1 \<in> set (fst (cbState (fst (walkLoop 10 10 exStore exLib exTipSet 1 True False
          (recording okCb)
          (fst (walkChain 10 exStore exLib exTipSet 1 True False (recording okCb) (dag 2)
             exRecStart))))))
   \<and> emitted 10 exStore exLib None 1 True False okCb () =
        [dag 2, dag 12, rawc 100, dag 101, rawc 102, dag 22, dag 23, rawc 24, dag 32,
         dag 1, dag 0, rawc 40, dag 20, dag 30]"
proof -
  define st1 where "st1 = fst (walkChain 10 exStore exLib exTipSet 1 True False (recording okCb)
    (dag 2) exRecStart)"
  have fresh: "dag 0 \<notin> seen exRecState" "dag 2 \<notin> seen exRecState" "dag 2 \<notin> seen exRecStart"
    by code_simp+
  have cb0: "recording okCb (dag 0) (cbState exRecState) = (([dag 0], ()), None)"
    and cb2: "recording okCb (dag 2) (cbState exRecState) = (([dag 2], ()), None)"
    and cb2': "recording okCb (dag 2) (cbState exRecStart) = (([dag 2], ()), None)"
    by code_simp+
  have get0: "chainGet exStore (dag 0) = Some (HeaderObj exHeader0)"
    and get2: "chainGet exStore (dag 2) = Some (HeaderObj exHeader2)" by code_simp+
  have dec0: "unmarshalCBOR exLib (HeaderObj exHeader0) = Some exHeader0"
    and dec2: "unmarshalCBOR exLib (HeaderObj exHeader2) = Some exHeader2" by code_simp+
  have msg0: "walkMessages 10 exStore exLib exTipSet 1 True exHeader0 (walked exRecState) = ({}, Inr [])"
    by code_simp
  have msg2: "walkMessages 10 exStore exLib exTipSet 1 True exHeader2 (walked exRecState) =
      ({dag 12, rawc 100, dag 101, rawc 102}, Inr [dag 12, rawc 100, dag 101, rawc 102])"
    and msg2': "walkMessages 10 exStore exLib exTipSet 1 True exHeader2 (walked exRecStart) =
      ({dag 12, rawc 100, dag 101, rawc 102}, Inr [dag 12, rawc 100, dag 101, rawc 102])"
    by code_simp+
  have h0: "\<not> 0 <s Height exHeader0" and h2: "0 <s Height exHeader2" by code_simp+
  have p0: "rawc 40 \<in> set (Parents exHeader0)" "rawc 40 \<notin> seen exRecState" "passesFilter (rawc 40)"
    by code_simp+
  have p2: "dag 1 \<in> set (Parents exHeader2)" "passesFilter (dag 1)" "dag 1 \<notin> seen st1"
    unfolding st1_def by code_simp+
  have nil0: "snd (walkChain 10 exStore exLib exTipSet 1 True False (recording okCb) (dag 0)
      exRecState) = None"
    by code_simp
  have nil2: "snd (walkChain 10 exStore exLib exTipSet 1 True False (recording okCb) (dag 2)
      exRecStart) = None"
    by code_simp
  have nilLoop: "snd (walkLoop 10 10 exStore exLib exTipSet 1 True False (recording okCb) st1) = None"
    unfolding st1_def by code_simp
  have run0: "walkChain 10 exStore exLib exTipSet 1 True False (recording okCb) (dag 0) exRecState =
      (fst (walkChain 10 exStore exLib exTipSet 1 True False (recording okCb) (dag 0) exRecState), None)"
    using nil0 by (simp add: prod_eq_iff)
  have run2: "walkChain 10 exStore exLib exTipSet 1 True False (recording okCb) (dag 2) exRecStart =
      (st1, None)"
    using nil2 by (simp add: prod_eq_iff st1_def)
  have loop: "walkLoop 10 10 exStore exLib exTipSet 1 True False (recording okCb) st1 =
      (fst (walkLoop 10 10 exStore exLib exTipSet 1 True False (recording okCb) st1), None)"
    using nilLoop by (simp add: prod_eq_iff)
  have walk: "emitted 10 exStore exLib None 1 True False okCb () =
        [dag 2, dag 12, rawc 100, dag 101, rawc 102, dag 22, dag 23, rawc 24, dag 32,
         dag 1, dag 0, rawc 40, dag 20, dag 30]"
    by code_simp
  note g = walkChain_parents[where cb = okCb and sr = False, OF fresh(1) cb0 get0 dec0 msg0]
  note t = walkChain_parents[where cb = okCb and sr = False, OF fresh(2) cb2 get2 dec2 msg2]
  note l = walkChain_parents[where cb = okCb and sr = False, OF fresh(3) cb2' get2 dec2 msg2']
  have a: "blocksToWalk (fst (walkChain 10 exStore exLib exTipSet 1 True False (recording okCb) (dag 0)
          exRecState)) = [dag 7]"
    using g h0 by (simp add: exRecState_def)
  have b: "rawc 40 \<in> set (fst (cbState (fst (walkChain 10 exStore exLib exTipSet 1 True False
          (recording okCb) (dag 0) exRecState))))"
    using g run0 h0 p0 by blast
  have c: "blocksToWalk (fst (walkChain 10 exStore exLib exTipSet 1 True False (recording okCb) (dag 2)
          exRecState)) = [dag 7, dag 1]"
    using t h2 by (simp add: exRecState_def exHeader2_def)
  have d: "dag 1 \<in> set (fst (cbState (fst (walkLoop 10 10 exStore exLib exTipSet 1 True False
          (recording okCb) st1))))"
    using l run2 h2 loop p2 by blast
  show ?thesis using h0 a p0(1) b h2 c p2(1) d walk unfolding st1_def by blast
qed

text \<open>
  Claim C6, as the code has it. The filter of lines 197-208 stands in the loop over
  \<^verbatim>\<open>out\<close> only: an emitted identifier has a multihash other than the identity and the
  codec raw or dagcbor, unless it is the identifier of a walked block (a block of the
  tip-set, or a parent named by the header of an emitted block above height 0), which
  line 135 passes to the callback without a test.
\<close>

theorem emitted_filtered_or_block:
  assumes "c \<in> set (emitted fuel cs lib tso incl so sr cb w0)"
  shows "(MhType c \<noteq> IDENTITY \<and> (Codec c = Raw \<or> Codec c = DagCBOR)) \<or>
     walkedBlockId cs lib (case tso of None \<Rightarrow> heaviestTipSet cs | Some t \<Rightarrow> t)
       (emitted fuel cs lib tso incl so sr cb w0) c"
proof -
  define ts where "ts = (case tso of None \<Rightarrow> heaviestTipSet cs | Some t \<Rightarrow> t)"
  define st0 :: "(cid list \<times> 'b) walkState" where
    "st0 = \<lparr>seen = {}, walked = {}, blocksToWalk = Cids ts, currentMinHeight = TsHeight ts,
              cbState = ([], w0)\<rparr>"
  have "filterInv cs lib ts st0" by (simp add: filterInv_def st0_def walkedBlockId_def)
  then have "filterInv cs lib ts (fst (walkLoop fuel fuel cs lib ts incl so sr (recording cb) st0))"
  proof (rule walkLoop_invariant)
    fix st :: "(cid list \<times> 'b) walkState" and blk rest st' r
    assume a: "filterInv cs lib ts st" "blocksToWalk st = blk # rest"
      "walkChain fuel cs lib ts incl so sr (recording cb) blk (st\<lparr>blocksToWalk := rest\<rparr>) = (st', r)"
    have "filterInv cs lib ts (st\<lparr>blocksToWalk := rest\<rparr>)"
      "walkedBlockId cs lib ts (fst (cbState (st\<lparr>blocksToWalk := rest\<rparr>))) blk"
      using a(1,2) by (simp_all add: filterInv_def)
    then show "filterInv cs lib ts st'" using a(3) walkChain_filterInv by blast
  qed
  moreover obtain stf rf where "walkLoop fuel fuel cs lib ts incl so sr (recording cb) st0 = (stf, rf)"
    by (cases "walkLoop fuel fuel cs lib ts incl so sr (recording cb) st0")
  ultimately have "\<forall>c \<in> set (emitted fuel cs lib tso incl so sr cb w0).
      passesFilter c \<or> walkedBlockId cs lib ts (emitted fuel cs lib tso incl so sr cb w0) c"
    by (simp add: emitted_def WalkSnapshot_def ts_def[symmetric] st0_def[symmetric] filterInv_def)
  then show ?thesis using assms unfolding ts_def passesFilter_def by blast
qed

text \<open>
  The identity-hash parent of the block \<open>dag 60\<close> is emitted, and it is the identifier of
  a walked block.
\<close>

theorem emitted_filtered_or_block_witness:
  "Cid DagCBOR IDENTITY 61 \<in> set (emitted 10 exOddStore exLib (Some exOddTipSet) 1 False True okCb ())
   \<and> walkedBlockId exOddStore exLib exOddTipSet
        (emitted 10 exOddStore exLib (Some exOddTipSet) 1 False True okCb ())
        (Cid DagCBOR IDENTITY 61)"
proof -
  have mem: "Cid DagCBOR IDENTITY 61 \<in> set (emitted 10 exOddStore exLib (Some exOddTipSet) 1 False True okCb ())"
    by code_simp
  have ident: "MhType (Cid DagCBOR IDENTITY 61) = IDENTITY" by simp
  show ?thesis using emitted_filtered_or_block[OF mem] mem ident by simp
qed

text \<open>
  The claim as stated fails on the same walk: it returns nil, and the emitted sequence
  holds an identifier with the identity multihash and one whose codec is neither raw nor
  dagcbor, both reached as parents of the block \<open>dag 60\<close>.
\<close>

theorem emitted_unfiltered_block_counterexample:
  "emitted 10 exOddStore exLib (Some exOddTipSet) 1 False True okCb () =
     [dag 60, rawc 63, rawc 64, Cid DagCBOR IDENTITY 61, Cid 0x70 0x12 62]
   \<and> snd (WalkSnapshot 10 exOddStore exLib (Some exOddTipSet) 1 False True okCb ()) = None
   \<and> MhType (Cid DagCBOR IDENTITY 61) = IDENTITY
   \<and> Codec (Cid 0x70 0x12 62) \<noteq> Raw
   \<and> Codec (Cid 0x70 0x12 62) \<noteq> DagCBOR"
  by code_simp




text \<open>
  Claim C1. Let \<open>Export\<close> of a tip-set return nil, writing the stream into memory. Let the
  stream be imported into a node whose chain and state blockstore are one store (as the
  comment at the head of \<^verbatim>\<open>Import\<close> says they are), with writes that do not fail. Then
  \<^verbatim>\<open>Import\<close> succeeds under every schedule of itself and its goroutines: as long as it
  has not returned the tip-set exported, somebody can move; no schedule makes more
  moves than twice the frames of the stream plus \<open>parallelPuts\<close>, so a schedule under
  which nobody can move any more is reached, and there \<^verbatim>\<open>Import\<close> has returned the
  tip-set; and whatever it returns, at any time, is that tip-set, so the same blocks.

  The exporting store is a content-addressed one: the bytes it holds under an
  identifier hash to it (otherwise the reader of the archive refuses the record). The
  tip-set is one of that store: its identifiers are identifiers of hashed headers (not
  dropped by the filter), the resolver \<open>load\<close> resolves it there, and the union store
  holds the bytes of the chain blockstore for its blocks. The resolver reads the chain
  blockstore at the identifiers of the key only. The window and the message flag are
  arbitrary; \<^verbatim>\<open>Export\<close> always skips receipts.
\<close>

theorem Import_Export_roundtrip:
  assumes ex: "Export fuel cs lib ts incl so bufWrite [] = (stream, None)"
    and hashed: "\<forall>c data. UnionStore cs c = Some data \<longrightarrow> intact c data"
    and ids: "\<forall>c \<in> set (Cids ts). passesFilter c"
    and agree: "\<forall>c \<in> set (Cids ts). UnionStore cs c = chainGet cs c"
    and tipset: "load cs (Cids ts) = Inr ts"
    and reads: "\<forall>a b key. (\<forall>c \<in> set key. chainGet a c = chainGet b c) \<longrightarrow> load a key = load b key"
    and universal: "chainBlockstore cs' = stateBlockstore cs'"
  shows "(\<forall>sched.
            (pc (Import intact (\<lambda>b. None) load cs' stream sched) = Returned (Inr ts) \<or>
             (\<exists>ev. enabled intact (Import intact (\<lambda>b. None) load cs' stream sched) ev)) \<and>
            stepsTaken intact (\<lambda>b. None) load (importStart cs' stream) sched
              \<le> 2 * length stream + parallelPuts \<and>
            (\<forall>r. pc (Import intact (\<lambda>b. None) load cs' stream sched) = Returned r \<longrightarrow> r = Inr ts)) \<and>
         (\<exists>sched. pc (Import intact (\<lambda>b. None) load cs' stream sched) = Returned (Inr ts))"
proof -
  from Export_stream[OF ex ids] obtain recs where
    stream: "stream = Header (Cids ts) 1 # map toFrame recs"
    and recs: "\<forall>p \<in> set recs. UnionStore cs (fst p) = Some (snd p)"
    and cover: "set (Cids ts) \<subseteq> fst ` set recs"
    by blast
  define st0 where "st0 = importStart cs' stream"
  have st0: "st0 = \<lparr>pc = Reading, roots = Cids ts, input = map toFrame recs, buf = [],
      putThrottle = replicate parallelPuts None, running = [], node = cs'\<rparr>"
    by (simp add: st0_def importStart_def stream)
  have frames: "\<forall>fr \<in> set (input st0). \<exists>c data. fr = Block c data \<and> UnionStore cs c = Some data"
    using recs by (auto simp: st0 toFrame_def)
  have pending: "\<forall>c \<in> set (Cids ts). \<exists>data. Block c data \<in> set (input st0)"
  proof
    fix c assume "c \<in> set (Cids ts)"
    then obtain p where "p \<in> set recs" "c = fst p" using cover by auto
    then have "Block c (snd p) \<in> set (input st0)" by (auto simp: st0 toFrame_def image_iff)
    then show "\<exists>data. Block c data \<in> set (input st0)" by blast
  qed
  have round0: "roundInv (UnionStore cs) (set (Cids ts)) load (Cids ts) st0"
    unfolding roundInv_def using frames pending universal by (simp add: st0)
  have tok0: "importInv (\<lambda>b. None) load st0"
    unfolding st0_def by (rule importInv_start)
  have result: "r = Inr ts"
    if "pc (Import intact (\<lambda>b. None) load cs' stream sched) = Returned r" for sched r
  proof -
    have "roundInv (UnionStore cs) (set (Cids ts)) load (Cids ts)
        (Import intact (\<lambda>b. None) load cs' stream sched)"
      unfolding Import_def st0_def[symmetric] using hashed tok0 round0 by (rule roundInv_run)
    then have "\<forall>r'. pc (Import intact (\<lambda>b. None) load cs' stream sched) = Returned r' \<longrightarrow>
        (\<exists>n. r' = load n (Cids ts) \<and> chainBlockstore n = stateBlockstore n \<and>
                (\<forall>c \<in> set (Cids ts). stateGet n c = UnionStore cs c))"
      by (auto simp: roundInv_def split: pc.splits)
    with that obtain n where n: "r = load n (Cids ts)" "chainBlockstore n = stateBlockstore n"
      "\<forall>c \<in> set (Cids ts). stateGet n c = UnionStore cs c"
      by blast
    have "\<forall>c \<in> set (Cids ts). chainGet n c = chainGet cs c"
      using n(2,3) agree by (simp add: chainGet_def stateGet_def)
    then have "load n (Cids ts) = load cs (Cids ts)" using reads by blast
    then show ?thesis using n(1) tipset by simp
  qed
  have moves: "pc (Import intact (\<lambda>b. None) load cs' stream sched) = Returned (Inr ts) \<or>
      (\<exists>ev. enabled intact (Import intact (\<lambda>b. None) load cs' stream sched) ev)" for sched
  proof -
    have "importInv (\<lambda>b. None) load (Import intact (\<lambda>b. None) load cs' stream sched)"
      unfolding Import_def st0_def[symmetric] using tok0 by (rule importInv_run)
    from no_deadlock[OF this, of intact] show ?thesis using result by blast
  qed
  have bound: "stepsTaken intact (\<lambda>b. None) load (importStart cs' stream) sched
      \<le> 2 * length stream + parallelPuts" for sched
  proof -
    have "movesLeft st0 = 2 * length stream + parallelPuts"
      by (simp add: movesLeft_def st0 stream)
    then show ?thesis
      using steps_bound[of intact "\<lambda>b. None" load st0 sched] by (simp add: st0_def)
  qed
  have "\<exists>sched r. pc (Import intact (\<lambda>b. None) load cs' stream sched) = Returned r"
    unfolding Import_def st0_def[symmetric] using tok0 by (rule returns_eventually)
  then have "\<exists>sched. pc (Import intact (\<lambda>b. None) load cs' stream sched) = Returned (Inr ts)"
    using result by blast
  then show ?thesis using moves bound result by blast
qed

text \<open>
  The example chain, exported and imported into the empty node: \<^verbatim>\<open>Import\<close> returns the
  tip-set after 19 moves of its own, within the bound of 31, and then nobody can move.
  With the bytes of one record replaced the reader fails at that record.
\<close>

theorem Import_Export_roundtrip_witness:
  "Export 10 exStore exLib exTipSet 1 True bufWrite [] = (exArchive, None)
   \<and> (\<exists>sched. pc (Import exIntact (\<lambda>b. None) (LoadTipSet exLib) exEmptyStore exArchive sched) =
         Returned (Inr exTipSet))
   \<and> pc (Import exIntact (\<lambda>b. None) (LoadTipSet exLib) exEmptyStore exArchive (replicate 19 Main)) =
         Returned (Inr exTipSet)
   \<and> stepsTaken exIntact (\<lambda>b. None) (LoadTipSet exLib) (importStart exEmptyStore exArchive)
         (replicate 19 Main) = 19
   \<and> 2 * length exArchive + parallelPuts = 31
   \<and> pc (Import exIntact (\<lambda>b. None) (LoadTipSet exLib) exEmptyStore exArchive (replicate 18 Main)) =
         Draining 5
   \<and> enabled exIntact
         (Import exIntact (\<lambda>b. None) (LoadTipSet exLib) exEmptyStore exArchive (replicate 18 Main)) Main
   \<and> pc (Import exIntact (\<lambda>b. None) (LoadTipSet exLib) exEmptyStore exTampered (replicate 2 Main)) =
         Returned (Inl ReadFailed)"
proof -
  have ex: "Export 10 exStore exLib exTipSet 1 True bufWrite [] = (exArchive, None)"
    by code_simp
  have hashed: "\<forall>c data. UnionStore exStore c = Some data \<longrightarrow> exIntact c data"
    by (simp add: UnionStore_def stateGet_def chainGet_def exStore_def exIntact_def
        split: option.splits)
  have ids: "\<forall>c \<in> set (Cids exTipSet). passesFilter c" by code_simp
  have agree: "\<forall>c \<in> set (Cids exTipSet). UnionStore exStore c = chainGet exStore c" by code_simp
  have tipset: "LoadTipSet exLib exStore (Cids exTipSet) = Inr exTipSet" by code_simp
  have reads: "\<forall>a b key. (\<forall>c \<in> set key. chainGet a c = chainGet b c) \<longrightarrow>
      LoadTipSet exLib a key = LoadTipSet exLib b key"
    using LoadTipSet_reads by blast
  have universal: "chainBlockstore exEmptyStore = stateBlockstore exEmptyStore" by code_simp
  have run: "pc (Import exIntact (\<lambda>b. None) (LoadTipSet exLib) exEmptyStore exArchive (replicate 19 Main)) =
         Returned (Inr exTipSet)"
    by code_simp
  have steps: "stepsTaken exIntact (\<lambda>b. None) (LoadTipSet exLib) (importStart exEmptyStore exArchive)
         (replicate 19 Main) = 19"
    by code_simp
  have limit: "2 * length exArchive + parallelPuts = 31" by code_simp
  have before: "pc (Import exIntact (\<lambda>b. None) (LoadTipSet exLib) exEmptyStore exArchive (replicate 18 Main)) =
         Draining 5"
    by code_simp
  have tampered: "pc (Import exIntact (\<lambda>b. None) (LoadTipSet exLib) exEmptyStore exTampered (replicate 2 Main)) =
         Returned (Inl ReadFailed)"
    by code_simp
  note rt = Import_Export_roundtrip[OF ex hashed ids agree tipset reads universal]
  have some: "\<exists>sched. pc (Import exIntact (\<lambda>b. None) (LoadTipSet exLib) exEmptyStore exArchive sched) =
         Returned (Inr exTipSet)"
    using rt by blast
  have "pc (Import exIntact (\<lambda>b. None) (LoadTipSet exLib) exEmptyStore exArchive (replicate 18 Main)) =
          Returned (Inr exTipSet) \<or>
        (\<exists>ev. enabled exIntact
          (Import exIntact (\<lambda>b. None) (LoadTipSet exLib) exEmptyStore exArchive (replicate 18 Main)) ev)"
    using rt by blast
  then obtain ev where ev: "enabled exIntact
          (Import exIntact (\<lambda>b. None) (LoadTipSet exLib) exEmptyStore exArchive (replicate 18 Main)) ev"
    using before by auto
  have quiet: "running (Import exIntact (\<lambda>b. None) (LoadTipSet exLib) exEmptyStore exArchive
      (replicate 18 Main)) = []"
    by code_simp
  have "ev = Main" using ev quiet by (cases ev) (simp_all add: enabled_def)
  then have on: "enabled exIntact
         (Import exIntact (\<lambda>b. None) (LoadTipSet exLib) exEmptyStore exArchive (replicate 18 Main)) Main"
    using ev by simp
  show ?thesis using ex some run steps limit before on tampered by blast
qed
end
